theory Spec2Isabelle
  imports Complex_Main
begin

section \<open>The rendezvous server (backend/server.js)\<close>

text \<open>
  The server keeps one process-wide registry, \<^verbatim>\<open>const users = new Map()\<close>, from socket id to
  \<^verbatim>\<open>{ id, name }\<close>. A JavaScript \<^verbatim>\<open>Map\<close> iterates in insertion order and \<^verbatim>\<open>set\<close> on a key that
  is present keeps its position, so the registry is an association list.
\<close>

record user =
  user_id :: string
  user_name :: string

primrec Map_set :: "'k \<Rightarrow> 'v \<Rightarrow> ('k \<times> 'v) list \<Rightarrow> ('k \<times> 'v) list" where
  "Map_set k v [] = [(k, v)]"
| "Map_set k v (p # ps) = (if fst p = k then (k, v) # ps else p # Map_set k v ps)"

definition Map_get :: "('k \<times> 'v) list \<Rightarrow> 'k \<Rightarrow> 'v option" where
  "Map_get m k = map_of m k"

definition Map_delete :: "'k \<Rightarrow> ('k \<times> 'v) list \<Rightarrow> ('k \<times> 'v) list" where
  "Map_delete k m = filter (\<lambda>p. fst p \<noteq> k) m"

definition Map_values :: "('k \<times> 'v) list \<Rightarrow> 'v list" where
  "Map_values m = map snd m"

text \<open>
  The state of the server: the sockets that are connected (socket.io's own bookkeeping, in
  connection order) and the registry. A socket is connected from the \<^verbatim>\<open>connection\<close> event to
  its \<^verbatim>\<open>disconnect\<close> event; it is registered only once it has emitted \<^verbatim>\<open>join\<close>.
\<close>

record server =
  sockets :: "string list"
  users :: "(string \<times> user) list"

definition MAIN_LOBBY :: string where
  "MAIN_LOBBY = ''main-lobby''"

text \<open>
  What a client emits to the server. The type \<open>'a\<close> stands for the JavaScript values the server
  passes on without looking inside: the WebRTC signal, the file count, the size label, the
  byte total and the accept flag. \<^verbatim>\<open>data.name\<close> of \<^verbatim>\<open>join\<close> is \<open>None\<close> when it is undefined.
\<close>

datatype 'a client_event =
    Connect
  | Join "string option"
  | Signal string 'a string
  | BatchRequest string string 'a 'a 'a
  | BatchAnswer string 'a
  | Disconnect

text \<open>
  What the server emits to a socket: \<^verbatim>\<open>me\<close>, \<^verbatim>\<open>users\<close>, \<^verbatim>\<open>signal\<close> with \<^verbatim>\<open>{ signal, from }\<close>,
  \<^verbatim>\<open>batch-request\<close> with \<^verbatim>\<open>{ from, fromName, fileCount, totalSize, totalBytes }\<close> and
  \<^verbatim>\<open>batch-answer\<close> with \<^verbatim>\<open>{ from, accepted }\<close>.
\<close>

datatype 'a server_msg =
    Me string
  | Users "user list"
  | SignalMsg 'a string
  | BatchRequestMsg string string 'a 'a 'a
  | BatchAnswerMsg string 'a

text \<open>
  \<^verbatim>\<open>io.to(room).emit(...)\<close> of socket.io reaches every connected socket that is in the room. A
  socket is in the room named by its own id (socket.io puts it there) and in the lobby
  (\<^verbatim>\<open>socket.join(MAIN_LOBBY)\<close> on connection), and in no other room. The result lists the
  deliveries, each with its recipient.
\<close>

definition in_room :: "string \<Rightarrow> string \<Rightarrow> bool" where
  "in_room s room \<longleftrightarrow> room = s \<or> room = MAIN_LOBBY"

definition io_to_emit :: "server \<Rightarrow> string \<Rightarrow> 'a server_msg \<Rightarrow> (string \<times> 'a server_msg) list" where
  "io_to_emit st room m = map (\<lambda>s. (s, m)) (filter (\<lambda>s. in_room s room) (sockets st))"

definition broadcastUsers :: "server \<Rightarrow> (string \<times> 'a server_msg) list" where
  "broadcastUsers st = (let userList = Map_values (users st) in io_to_emit st MAIN_LOBBY (Users userList))"

text \<open>The name a peer is registered under: \<^verbatim>\<open>data.name || `User-${socket.id.slice(0, 4)}`\<close>.\<close>

definition userName_of :: "string \<Rightarrow> string option \<Rightarrow> string" where
  "userName_of sid dname =
     (case dname of
        None \<Rightarrow> ''User-'' @ take 4 sid
      | Some n \<Rightarrow> if n = [] then ''User-'' @ take 4 sid else n)"

text \<open>\<^verbatim>\<open>fromUser?.name || 'Unknown'\<close> of the \<^verbatim>\<open>batch-request\<close> handler.\<close>

definition fromName_of :: "server \<Rightarrow> string \<Rightarrow> string" where
  "fromName_of st from_id =
     (case Map_get (users st) from_id of
        None \<Rightarrow> ''Unknown''
      | Some u \<Rightarrow> if user_name u = [] then ''Unknown'' else user_name u)"

text \<open>
  The handlers, one per \<^verbatim>\<open>socket.on\<close>: each takes the state and the id of the socket whose
  handler runs and returns the new state and the deliveries, in order. The console output of
  the handlers is not part of the model.
\<close>

definition on_connection :: "server \<Rightarrow> string \<Rightarrow> server \<times> (string \<times> 'a server_msg) list" where
  "on_connection st sid = (st\<lparr>sockets := sockets st @ [sid]\<rparr>, [])"

definition on_join :: "server \<Rightarrow> string \<Rightarrow> string option \<Rightarrow> server \<times> (string \<times> 'a server_msg) list" where
  "on_join st sid dname =
     (let userName = userName_of sid dname;
          st' = st\<lparr>users := Map_set sid \<lparr>user_id = sid, user_name = userName\<rparr> (users st)\<rparr>
      in (st', (sid, Me sid) # broadcastUsers st'))"

definition on_signal :: "server \<Rightarrow> string \<Rightarrow> 'a \<Rightarrow> string \<Rightarrow> server \<times> (string \<times> 'a server_msg) list" where
  "on_signal st to signal from_id = (st, io_to_emit st to (SignalMsg signal from_id))"

definition on_batch_request ::
  "server \<Rightarrow> string \<Rightarrow> string \<Rightarrow> 'a \<Rightarrow> 'a \<Rightarrow> 'a \<Rightarrow> server \<times> (string \<times> 'a server_msg) list" where
  "on_batch_request st to from_id fileCount totalSize totalBytes =
     (st, io_to_emit st to
            (BatchRequestMsg from_id (fromName_of st from_id) fileCount totalSize totalBytes))"

definition on_batch_answer :: "server \<Rightarrow> string \<Rightarrow> string \<Rightarrow> 'a \<Rightarrow> server \<times> (string \<times> 'a server_msg) list" where
  "on_batch_answer st sid to accepted = (st, io_to_emit st to (BatchAnswerMsg sid accepted))"

text \<open>
  socket.io has taken the socket out of its rooms when \<^verbatim>\<open>disconnect\<close> fires; the handler
  deletes the user and broadcasts only if the socket was registered.
\<close>

definition on_disconnect :: "server \<Rightarrow> string \<Rightarrow> server \<times> (string \<times> 'a server_msg) list" where
  "on_disconnect st sid =
     (let st1 = st\<lparr>sockets := removeAll sid (sockets st)\<rparr>
      in case Map_get (users st1) sid of
           None \<Rightarrow> (st1, [])
         | Some u \<Rightarrow>
             (let st2 = st1\<lparr>users := Map_delete sid (users st1)\<rparr>
              in (st2, broadcastUsers st2)))"

text \<open>
  One event of one socket. socket.io gives every connection a fresh id of its own making, never
  the name of the lobby, and only a connected socket has handlers: a connection under an id in
  use or under the lobby's name, and an event of a socket that is not connected, do not occur
  and leave the state as it is.
\<close>

fun step :: "server \<Rightarrow> string \<times> 'a client_event \<Rightarrow> server \<times> (string \<times> 'a server_msg) list" where
  "step st (sid, Connect) =
     (if sid \<in> set (sockets st) \<or> sid = MAIN_LOBBY then (st, []) else on_connection st sid)"
| "step st (sid, ev) =
     (if sid \<notin> set (sockets st) then (st, [])
      else case ev of
             Join dname \<Rightarrow> on_join st sid dname
           | Signal to signal from_id \<Rightarrow> on_signal st to signal from_id
           | BatchRequest to from_id fileCount totalSize totalBytes \<Rightarrow>
               on_batch_request st to from_id fileCount totalSize totalBytes
           | BatchAnswer to accepted \<Rightarrow> on_batch_answer st sid to accepted
           | Disconnect \<Rightarrow> on_disconnect st sid)"

definition initial_server :: server where
  "initial_server = \<lparr>sockets = [], users = []\<rparr>"

text \<open>The state after a sequence of events, from the empty server at start-up.\<close>

definition run :: "(string \<times> 'a client_event) list \<Rightarrow> server" where
  "run evs = foldl (\<lambda>st e. fst (step st e)) initial_server evs"

text \<open>
  The client's handler of \<^verbatim>\<open>users\<close> (frontend/src/App.jsx):
  \<^verbatim>\<open>const others = userList.filter(u => u.id !== newSocket.id)\<close>; \<open>others\<close> becomes the peer list
  the client shows.
\<close>

definition client_on_users :: "string \<Rightarrow> user list \<Rightarrow> user list" where
  "client_on_users socket_id userList = filter (\<lambda>u. user_id u \<noteq> socket_id) userList"

text \<open>
  What holds of every state the server reaches: socket ids are distinct and none is the lobby's
  name, the registry has one entry per key, only connected sockets are registered, and every
  entry carries its own key as \<^verbatim>\<open>id\<close>.
\<close>

definition server_inv :: "server \<Rightarrow> bool" where
  "server_inv st \<longleftrightarrow>
     distinct (sockets st) \<and> MAIN_LOBBY \<notin> set (sockets st) \<and>
     distinct (map fst (users st)) \<and>
     fst ` set (users st) \<subseteq> set (sockets st) \<and>
     list_all (\<lambda>p. user_id (snd p) = fst p) (users st)"

text \<open>Concrete runs, used to evaluate the handlers.\<close>

definition three_peers :: "(string \<times> unit client_event) list" where
  "three_peers = [(''a1'', Connect), (''a1'', Join (Some ''Ann'')), (''b1'', Connect),
     (''b1'', Join None), (''c1'', Connect), (''c1'', Join (Some ''Cy''))]"

definition peer_not_joined :: "(string \<times> nat client_event) list" where
  "peer_not_joined = [(''a1'', Connect), (''a1'', Join (Some ''Ann'')), (''b1'', Connect)]"

section \<open>JSON text (JSON.stringify and JSON.parse of the platform)\<close>

text \<open>
  A JavaScript string and a Buffer are both modelled as a list of bytes (\<open>string\<close>): a string
  by its UTF-8 encoding, which is how the data channel carries it and how
  \<^verbatim>\<open>data.toString()\<close> reads a Buffer back.

  A JSON value. A number is kept as the text of its literal.
\<close>

datatype json =
    JNull
  | JBool bool
  | JNum string
  | JStr string
  | JArr "json list"
  | JObj "(string \<times> json) list"

text \<open>\<^verbatim>\<open>msg.key\<close> on a parsed object: the last member with that key, \<open>None\<close> for undefined.\<close>

fun get_prop :: "json \<Rightarrow> string \<Rightarrow> json option" where
  "get_prop (JObj ms) key = map_of (rev ms) key"
| "get_prop _ key = None"

subsection \<open>Writing\<close>

definition hex_digit :: "nat \<Rightarrow> char" where
  "hex_digit n = ''0123456789abcdef'' ! n"

text \<open>
  The characters \<^verbatim>\<open>JSON.stringify\<close> escapes in a string: the quote, the backslash and the
  control characters below 0x20 (five of them by a letter, the rest as \<^verbatim>\<open>\u00XX\<close>).
\<close>

definition escape_char :: "char \<Rightarrow> string" where
  "escape_char c =
     (if c = CHR 0x22 then [CHR 0x5C, CHR 0x22]
      else if c = CHR 0x5C then [CHR 0x5C, CHR 0x5C]
      else if c = CHR 0x08 then [CHR 0x5C, CHR ''b'']
      else if c = CHR 0x09 then [CHR 0x5C, CHR ''t'']
      else if c = CHR 0x0A then [CHR 0x5C, CHR ''n'']
      else if c = CHR 0x0C then [CHR 0x5C, CHR ''f'']
      else if c = CHR 0x0D then [CHR 0x5C, CHR ''r'']
      else if of_char c < (32::nat) then
        [CHR 0x5C, CHR ''u'', CHR ''0'', CHR ''0'',
         hex_digit (of_char c div 16), hex_digit (of_char c mod 16)]
      else [c])"

definition quote :: "string \<Rightarrow> string" where
  "quote s = [CHR 0x22] @ concat (map escape_char s) @ [CHR 0x22]"

fun decimal :: "nat \<Rightarrow> string" where
  "decimal n =
     (if n < 10 then [hex_digit n] else decimal (n div 10) @ [hex_digit (n mod 10)])"

declare decimal.simps [simp del]

fun intercalate :: "'a list \<Rightarrow> 'a list list \<Rightarrow> 'a list" where
  "intercalate sep [] = []"
| "intercalate sep [x] = x"
| "intercalate sep (x # y # ys) = x @ sep @ intercalate sep (y # ys)"

fun JSON_stringify :: "json \<Rightarrow> string" where
  "JSON_stringify JNull = ''null''"
| "JSON_stringify (JBool b) = (if b then ''true'' else ''false'')"
| "JSON_stringify (JNum s) = s"
| "JSON_stringify (JStr s) = quote s"
| "JSON_stringify (JArr xs) = ''['' @ intercalate '','' (map JSON_stringify xs) @ '']''"
| "JSON_stringify (JObj ms) =
     ''{'' @ intercalate '','' (map (\<lambda>m. quote (fst m) @ '':'' @ JSON_stringify (snd m)) ms) @ ''}''"

subsection \<open>Reading: tokens\<close>

datatype token =
    TLBrace | TRBrace | TLBrack | TRBrack | TColon | TComma
  | TStr string | TNum string | TTrue | TFalse | TNull

definition is_ws :: "char \<Rightarrow> bool" where
  "is_ws c \<longleftrightarrow> c = CHR '' '' \<or> c = CHR 0x09 \<or> c = CHR 0x0A \<or> c = CHR 0x0D"

definition is_digit :: "char \<Rightarrow> bool" where
  "is_digit c \<longleftrightarrow> c \<in> set ''0123456789''"

definition is_numchar :: "char \<Rightarrow> bool" where
  "is_numchar c \<longleftrightarrow> is_digit c \<or> c \<in> set ''+-.eE''"

definition is_lower :: "char \<Rightarrow> bool" where
  "is_lower c \<longleftrightarrow> c \<in> set ''abcdefghijklmnopqrstuvwxyz''"

text \<open>
  The grammar of a number: an optional minus, then 0 or a digit from 1 to 9 followed by digits,
  then an optional fraction (a point and at least one digit), then an optional exponent
  (e or E, an optional sign, at least one digit).
\<close>

definition valid_exp :: "string \<Rightarrow> bool" where
  "valid_exp s =
     (case s of
        [] \<Rightarrow> True
      | c # r \<Rightarrow>
          (c = CHR ''e'' \<or> c = CHR ''E'') \<and>
          (let r' = (case r of [] \<Rightarrow> [] | d # t \<Rightarrow> if d = CHR ''+'' \<or> d = CHR ''-'' then t else r)
           in r' \<noteq> [] \<and> list_all is_digit r'))"

definition valid_frac :: "string \<Rightarrow> bool" where
  "valid_frac s =
     (case s of
        [] \<Rightarrow> True
      | c # r \<Rightarrow>
          if c = CHR ''.'' then
            (case r of [] \<Rightarrow> False | d # t \<Rightarrow> is_digit d \<and> valid_exp (dropWhile is_digit r))
          else valid_exp s)"

definition valid_number :: "string \<Rightarrow> bool" where
  "valid_number s =
     (let s1 = (case s of [] \<Rightarrow> [] | c # r \<Rightarrow> if c = CHR ''-'' then r else s)
      in case s1 of
           [] \<Rightarrow> False
         | c # r \<Rightarrow>
             if c = CHR ''0'' then valid_frac r
             else is_digit c \<and> valid_frac (dropWhile is_digit r))"

definition number_token :: "string \<Rightarrow> token option" where
  "number_token s = (if valid_number s then Some (TNum s) else None)"

definition literal_token :: "string \<Rightarrow> token option" where
  "literal_token s =
     (if s = ''true'' then Some TTrue
      else if s = ''false'' then Some TFalse
      else if s = ''null'' then Some TNull
      else None)"

text \<open>The character an escape letter stands for; \<^verbatim>\<open>\u\<close> is handled apart.\<close>

definition unescape :: "char \<Rightarrow> char option" where
  "unescape c =
     (if c = CHR 0x22 then Some (CHR 0x22)
      else if c = CHR 0x5C then Some (CHR 0x5C)
      else if c = CHR ''/'' then Some (CHR ''/'')
      else if c = CHR ''b'' then Some (CHR 0x08)
      else if c = CHR ''f'' then Some (CHR 0x0C)
      else if c = CHR ''n'' then Some (CHR 0x0A)
      else if c = CHR ''r'' then Some (CHR 0x0D)
      else if c = CHR ''t'' then Some (CHR 0x09)
      else None)"

definition hex_value :: "char \<Rightarrow> nat option" where
  "hex_value c =
     (if is_digit c then Some (of_char c - 48)
      else if c \<in> set ''abcdef'' then Some (of_char c - 87)
      else if c \<in> set ''ABCDEF'' then Some (of_char c - 55)
      else None)"

text \<open>
  The bytes of the code unit a \<^verbatim>\<open>\uXXXX\<close> escape names. Below 0x80 this is the one byte; above,
  the unit is encoded on its own (two surrogate escapes are not joined into one character),
  which can only alter the text of a string value, never whether the text parses.
\<close>

definition utf8 :: "nat \<Rightarrow> string" where
  "utf8 u =
     (if u < 128 then [char_of u]
      else if u < 2048 then [char_of (192 + u div 64), char_of (128 + u mod 64)]
      else [char_of (224 + u div 4096), char_of (128 + (u div 64) mod 64), char_of (128 + u mod 64)])"

datatype lstate =
    LStart
  | LStr string
  | LEsc string
  | LUni string "nat list"
  | LNum string
  | LLit string

definition start_step :: "char \<Rightarrow> (token list \<times> lstate) option" where
  "start_step c =
     (if is_ws c then Some ([], LStart)
      else if c = CHR ''{'' then Some ([TLBrace], LStart)
      else if c = CHR ''}'' then Some ([TRBrace], LStart)
      else if c = CHR ''['' then Some ([TLBrack], LStart)
      else if c = CHR '']'' then Some ([TRBrack], LStart)
      else if c = CHR '':'' then Some ([TColon], LStart)
      else if c = CHR '','' then Some ([TComma], LStart)
      else if c = CHR 0x22 then Some ([], LStr [])
      else if c = CHR ''-'' \<or> is_digit c then Some ([], LNum [c])
      else if is_lower c then Some ([], LLit [c])
      else None)"

text \<open>
  A number or a literal word ends at the first character that cannot belong to it; that
  character is then read as the start of the next token.
\<close>

definition close_with :: "token option \<Rightarrow> char \<Rightarrow> (token list \<times> lstate) option" where
  "close_with t c =
     (case t of
        None \<Rightarrow> None
      | Some tok \<Rightarrow>
          (case start_step c of
             None \<Rightarrow> None
           | Some (ts, st) \<Rightarrow> Some (tok # ts, st)))"

fun lex_step :: "lstate \<Rightarrow> char \<Rightarrow> (token list \<times> lstate) option" where
  "lex_step LStart c = start_step c"
| "lex_step (LStr acc) c =
     (if c = CHR 0x22 then Some ([TStr acc], LStart)
      else if c = CHR 0x5C then Some ([], LEsc acc)
      else if of_char c < (32::nat) then None
      else Some ([], LStr (acc @ [c])))"
| "lex_step (LEsc acc) c =
     (if c = CHR ''u'' then Some ([], LUni acc [])
      else case unescape c of
             None \<Rightarrow> None
           | Some d \<Rightarrow> Some ([], LStr (acc @ [d])))"
| "lex_step (LUni acc ds) c =
     (case hex_value c of
        None \<Rightarrow> None
      | Some d \<Rightarrow>
          if length ds = 3
          then Some ([], LStr (acc @ utf8 (foldl (\<lambda>v x. 16 * v + x) 0 (ds @ [d]))))
          else Some ([], LUni acc (ds @ [d])))"
| "lex_step (LNum acc) c =
     (if is_numchar c then Some ([], LNum (acc @ [c])) else close_with (number_token acc) c)"
| "lex_step (LLit acc) c =
     (if is_lower c then Some ([], LLit (acc @ [c])) else close_with (literal_token acc) c)"

fun lex_end :: "lstate \<Rightarrow> token list option" where
  "lex_end LStart = Some []"
| "lex_end (LNum acc) = map_option (\<lambda>t. [t]) (number_token acc)"
| "lex_end (LLit acc) = map_option (\<lambda>t. [t]) (literal_token acc)"
| "lex_end _ = None"

fun lex_from :: "lstate \<Rightarrow> string \<Rightarrow> token list option" where
  "lex_from st [] = lex_end st"
| "lex_from st (c # cs) =
     (case lex_step st c of
        None \<Rightarrow> None
      | Some (ts, st') \<Rightarrow> map_option (\<lambda>r. ts @ r) (lex_from st' cs))"

subsection \<open>Reading: values\<close>

text \<open>
  The tokens are read by a machine with a stack of the containers that are open and wait for
  a value: an object with its members so far and the key of the value awaited, or an array
  with its elements so far.
\<close>

datatype container = CObj "(string \<times> json) list" string | CArr "json list"

datatype pmode =
    WantValue
  | WantValueOrClose
  | WantKeyOrClose
  | WantKey "(string \<times> json) list"
  | WantColon "(string \<times> json) list" string
  | HaveValue json

definition value_start :: "token \<Rightarrow> container list \<Rightarrow> (pmode \<times> container list) option" where
  "value_start t stack =
     (case t of
        TStr s \<Rightarrow> Some (HaveValue (JStr s), stack)
      | TNum s \<Rightarrow> Some (HaveValue (JNum s), stack)
      | TTrue \<Rightarrow> Some (HaveValue (JBool True), stack)
      | TFalse \<Rightarrow> Some (HaveValue (JBool False), stack)
      | TNull \<Rightarrow> Some (HaveValue JNull, stack)
      | TLBrace \<Rightarrow> Some (WantKeyOrClose, stack)
      | TLBrack \<Rightarrow> Some (WantValueOrClose, CArr [] # stack)
      | _ \<Rightarrow> None)"

fun parse_step :: "pmode \<times> container list \<Rightarrow> token \<Rightarrow> (pmode \<times> container list) option" where
  "parse_step (WantValue, stack) t = value_start t stack"
| "parse_step (WantValueOrClose, stack) t =
     (if t = TRBrack then
        (case stack of
           CArr es # rest \<Rightarrow> Some (HaveValue (JArr es), rest)
         | _ \<Rightarrow> None)
      else value_start t stack)"
| "parse_step (WantKeyOrClose, stack) t =
     (case t of
        TStr k \<Rightarrow> Some (WantColon [] k, stack)
      | TRBrace \<Rightarrow> Some (HaveValue (JObj []), stack)
      | _ \<Rightarrow> None)"
| "parse_step (WantKey ms, stack) t =
     (case t of
        TStr k \<Rightarrow> Some (WantColon ms k, stack)
      | _ \<Rightarrow> None)"
| "parse_step (WantColon ms k, stack) t =
     (if t = TColon then Some (WantValue, CObj ms k # stack) else None)"
| "parse_step (HaveValue v, stack) t =
     (case stack of
        [] \<Rightarrow> None
      | CObj ms k # rest \<Rightarrow>
          if t = TComma then Some (WantKey (ms @ [(k, v)]), rest)
          else if t = TRBrace then Some (HaveValue (JObj (ms @ [(k, v)])), rest)
          else None
      | CArr es # rest \<Rightarrow>
          if t = TComma then Some (WantValue, CArr (es @ [v]) # rest)
          else if t = TRBrack then Some (HaveValue (JArr (es @ [v])), rest)
          else None)"

fun parse_from :: "pmode \<times> container list \<Rightarrow> token list \<Rightarrow> json option" where
  "parse_from (HaveValue v, []) [] = Some v"
| "parse_from st [] = None"
| "parse_from st (t # ts) =
     (case parse_step st t of
        None \<Rightarrow> None
      | Some st' \<Rightarrow> parse_from st' ts)"

text \<open>\<^verbatim>\<open>JSON.parse(text)\<close>: \<open>None\<close> when it throws a SyntaxError.\<close>

definition JSON_parse :: "string \<Rightarrow> json option" where
  "JSON_parse text =
     (case lex_from LStart text of
        None \<Rightarrow> None
      | Some ts \<Rightarrow> parse_from (WantValue, []) ts)"

section \<open>Numbers\<close>

text \<open>
  A JavaScript number is an IEEE 754 double. A finite double is modelled by the rational
  number it stands for, and an arithmetic operation by the exact result rounded to the nearest
  double, to the one with the even significand on a tie (\<open>fl\<close>). Doubles have a significand of
  53 bits; below \<open>2 powi (- 1022)\<close> they are spaced evenly (the subnormal numbers). A result of
  magnitude \<open>2 powi 1024\<close> or more is \<^verbatim>\<open>Infinity\<close> in the code and has no counterpart here; the
  quantities of \<^verbatim>\<open>updateStats\<close> stay far below that (see \<open>rate_facts\<close> and \<open>eta_range\<close>).

  \<open>bits n\<close> is the number of binary digits of a positive integer, \<open>ilog2 x\<close> the exponent of a
  positive rational (\<open>2 powi e \<le> x < 2 powi (e + 1)\<close>), \<open>round_even y\<close> the integer nearest to
  \<open>y\<close>, the even one on a tie, and \<open>ulp x\<close> the distance between the doubles around \<open>x\<close>.
\<close>

function bits :: "int \<Rightarrow> int" where
  "bits n = (if n \<le> 0 then 0 else bits (n div 2) + 1)"
  by pat_completeness auto
termination
  by (relation "measure nat") auto

declare bits.simps [simp del]

definition ilog2 :: "rat \<Rightarrow> int" where
  "ilog2 x = (let (p, q) = quotient_of x; k = bits p - bits q
              in if 2 powi k \<le> x then k else k - 1)"

definition round_even :: "rat \<Rightarrow> int" where
  "round_even y =
     (let n = \<lfloor>y\<rfloor>; r = y - of_int n
      in if r < 1 / 2 then n else if 1 / 2 < r then n + 1 else if even n then n else n + 1)"

definition ulp :: "rat \<Rightarrow> rat" where
  "ulp x = 2 powi (max (ilog2 \<bar>x\<bar>) (- 1022) - 52)"

definition fl :: "rat \<Rightarrow> rat" where
  "fl x = (if x = 0 then 0 else sgn x * (of_int (round_even (\<bar>x\<bar> / ulp x)) * ulp x))"

section \<open>Progress statistics (updateStats of frontend/src/App.jsx)\<close>

text \<open>
  Byte counts and millisecond timestamps are integers, which a double holds exactly up to
  \<open>2 ^ 53\<close> in magnitude; differences and quotients are rounded as the code rounds them.

  \<^verbatim>\<open>formatTime(seconds)\<close> returns \<^verbatim>\<open>'--:--'\<close> when \<^verbatim>\<open>seconds\<close> is not finite or negative, and
  \<^verbatim>\<open>`${m}m ${s}s`\<close> otherwise, with \<^verbatim>\<open>m = Math.floor(seconds / 60)\<close> and
  \<^verbatim>\<open>s = Math.floor(seconds % 60)\<close>. The label is kept as a value: \<open>Dashes\<close> for \<^verbatim>\<open>'--:--'\<close>,
  \<open>MinSec m s\<close> for the other. A number of the model is always finite. The quotient is
  rounded; the remainder of two doubles is a double and needs no rounding.
\<close>

datatype time_label = Dashes | MinSec int int

definition formatTime :: "rat \<Rightarrow> time_label" where
  "formatTime seconds =
     (if seconds < 0 then Dashes
      else (let m = \<lfloor>fl (seconds / 60)\<rfloor>;
                s = \<lfloor>seconds - 60 * of_int \<lfloor>seconds / 60\<rfloor>\<rfloor>
            in MinSec m s))"

text \<open>
  \<^verbatim>\<open>x.toFixed(1)\<close> for a number below \<open>10 ^ 21\<close> in magnitude: with \<open>n\<close> the integer for which
  \<open>n / 10\<close> is nearest to the magnitude of \<open>x\<close> (the larger one on a tie), the digits of \<open>n\<close>
  with a point before the last one, after a minus sign when \<open>x\<close> is negative.
\<close>

definition toFixed1 :: "rat \<Rightarrow> string" where
  "toFixed1 x =
     (let n = \<lfloor>\<bar>x\<bar> * 10 + 1 / 2\<rfloor>
      in (if x < 0 then ''-'' else []) @ decimal (nat (n div 10)) @ ''.'' @ decimal (nat (n mod 10)))"

record stats =
  totalFiles :: int
  processedFiles :: int
  totalBytes :: int
  processedBytes :: int
  speed :: string
  eta :: time_label
  currentFile :: string

text \<open>
  The state \<^verbatim>\<open>updateStats\<close> reads and writes: the React state \<^verbatim>\<open>stats\<close> and the two refs with the
  last sample. \<open>now\<close> is the value of \<^verbatim>\<open>Date.now()\<close>, in milliseconds.
\<close>

record progress =
  stats :: stats
  lastBytesRef :: int
  lastTimeRef :: int

text \<open>\<^verbatim>\<open>timeDiff = (now - lastTimeRef.current) / 1000\<close>, in seconds.\<close>

definition timeDiff_of :: "int \<Rightarrow> progress \<Rightarrow> rat" where
  "timeDiff_of now p = fl (fl (of_int (now - lastTimeRef p)) / 1000)"

text \<open>
  \<^verbatim>\<open>bytesDiff = processedBytes - lastBytesRef.current\<close> and
  \<^verbatim>\<open>speedBytesPerSec = timeDiff > 0 ? bytesDiff / timeDiff : 0\<close>.
\<close>

definition speedBytesPerSec_of :: "int \<Rightarrow> progress \<Rightarrow> int \<Rightarrow> rat" where
  "speedBytesPerSec_of now p processed_bytes =
     (let timeDiff = timeDiff_of now p;
          bytesDiff = fl (of_int (processed_bytes - lastBytesRef p))
      in if timeDiff > 0 then fl (bytesDiff / timeDiff) else 0)"

text \<open>
  \<^verbatim>\<open>remainingBytes = totalBytes - processedBytes\<close> and
  \<^verbatim>\<open>etaSeconds = speedBytesPerSec > 0 ? remainingBytes / speedBytesPerSec : 0\<close>.
\<close>

definition etaSeconds_of :: "rat \<Rightarrow> int \<Rightarrow> int \<Rightarrow> rat" where
  "etaSeconds_of speedBytesPerSec total_bytes processed_bytes =
     (let remainingBytes = fl (of_int (total_bytes - processed_bytes))
      in if speedBytesPerSec > 0 then fl (remainingBytes / speedBytesPerSec) else 0)"

text \<open>\<^verbatim>\<open>speedMB = (speedBytesPerSec / 1024 / 1024).toFixed(1)\<close>.\<close>

definition speedMB_of :: "rat \<Rightarrow> string" where
  "speedMB_of speedBytesPerSec = toFixed1 (fl (fl (speedBytesPerSec / 1024) / 1024))"

definition updateStats :: "int \<Rightarrow> progress \<Rightarrow> int \<Rightarrow> int \<Rightarrow> string \<Rightarrow> int \<Rightarrow> int \<Rightarrow> progress" where
  "updateStats now p total_bytes processed_bytes current_file total_files processed_files =
     (let timeDiff = timeDiff_of now p in
      if timeDiff = 0 then p
      else if timeDiff \<ge> 1 \<or> processed_bytes = total_bytes then
        (let speedBytesPerSec = speedBytesPerSec_of now p processed_bytes;
             speedMB = speedMB_of speedBytesPerSec;
             etaSeconds = etaSeconds_of speedBytesPerSec total_bytes processed_bytes
         in p\<lparr>stats := \<lparr>totalFiles = total_files, processedFiles = processed_files, totalBytes = total_bytes,
                         processedBytes = processed_bytes, speed = speedMB @ '' MB/s'',
                         eta = formatTime etaSeconds, currentFile = current_file\<rparr>,
               lastTimeRef := now, lastBytesRef := processed_bytes\<rparr>)
      else
        p\<lparr>stats := (stats p)\<lparr>processedFiles := processed_files, processedBytes := processed_bytes,
                                currentFile := current_file\<rparr>\<rparr>)"

text \<open>
  A byte count or a timestamp: a non-negative integer that the doubles hold exactly, as do
  the differences of two of them.
\<close>

definition safe_count :: "int \<Rightarrow> bool" where
  "safe_count n \<longleftrightarrow> 0 \<le> n \<and> n \<le> 2 ^ 53"

text \<open>A sample: the last one was taken at time 0 with 500 bytes done.\<close>

definition sample_progress :: progress where
  "sample_progress =
     \<lparr>stats = \<lparr>totalFiles = 1, processedFiles = 0, totalBytes = 1000, processedBytes = 500,
                speed = ''0 MB/s'', eta = Dashes, currentFile = ''a.txt''\<rparr>,
      lastBytesRef = 500, lastTimeRef = 0\<rparr>"

section \<open>The receiver (setupReceiverEvents of frontend/src/App.jsx)\<close>

text \<open>
  The writer \<^verbatim>\<open>streamSaver.createWriteStream(msg.name, { size: msg.size }).getWriter()\<close>: the name
  and size it was opened with (\<open>None\<close> for undefined), the chunks it has taken so far, and
  whether it still takes any. It is the writer of a WritableStream: once \<^verbatim>\<open>close()\<close> has been
  called (\<open>Closing\<close>), or a write or the close has failed (\<open>Errored\<close>), the promises of \<^verbatim>\<open>write\<close>
  and \<^verbatim>\<open>close\<close> reject.
\<close>

datatype wstate = Writable | Closing | Errored

record writer =
  w_name :: "json option"
  w_size :: "json option"
  w_chunks :: "string list"
  w_state :: wstate

definition fail_writer :: "writer \<Rightarrow> writer" where
  "fail_writer w = (if w_state w = Writable then w\<lparr>w_state := Errored\<rparr> else w)"

text \<open>
  The handler is an \<^verbatim>\<open>async\<close> function. A call runs up to its first \<^verbatim>\<open>await\<close> and is suspended
  there; the rest of the call runs when the awaited promise has settled, which is after the
  call has returned to the event loop and may be after later frames have been handled. A
  suspended call is kept as what it waits for: \<open>AfterWrite r n\<close> is a call at
  \<^verbatim>\<open>await writable.write(data)\<close> with \<^verbatim>\<open>data.length\<close> \<open>n\<close>, \<open>AfterClose r\<close> one at
  \<^verbatim>\<open>await writable.close()\<close>; \<open>r\<close> says that the promise rejects.
\<close>

datatype continuation = AfterWrite bool nat | AfterClose bool

text \<open>
  The variables of the closure: \<^verbatim>\<open>currentFileMeta\<close> (\<open>None\<close> for null), \<^verbatim>\<open>writable\<close>, \<^verbatim>\<open>chunks\<close> and
  \<^verbatim>\<open>receivedBytes\<close>; and the suspended calls of the handler, oldest first. \<^verbatim>\<open>fileHandle\<close> is never
  assigned and \<^verbatim>\<open>isFileSystemAPI\<close> is only ever set to false; neither is read.
\<close>

record receiver =
  currentFileMeta :: "json option"
  writable :: "writer option"
  chunks :: "string list"
  receivedBytes :: nat
  pending :: "continuation list"

definition initial_receiver :: receiver where
  "initial_receiver =
     \<lparr>currentFileMeta = None, writable = None, chunks = [], receivedBytes = 0, pending = []\<rparr>"

text \<open>
  What the browser decides: whether the user agent is an iPad, iPhone or iPod, whether
  \<^verbatim>\<open>streamSaver.supported\<close> holds, whether \<^verbatim>\<open>createWriteStream\<close> throws, and whether the sink of a
  writer fails on a write and on the close.
\<close>

record browser =
  isIOS :: bool
  streamSaver_supported :: bool
  createWriteStream_throws :: bool
  write_rejects :: bool
  close_rejects :: bool

text \<open>
  Nobody awaits the handler: an exception in it ends that call and reaches no caller. It is
  recorded as the last event of the call.
\<close>

datatype rerror = TypeError | WriteRejected | CloseRejected

text \<open>
  What the handler does that can be seen from outside, in order: the three console lines,
  \<^verbatim>\<open>close()\<close> called on a stream writer that takes it (the download of \<open>w_name\<close> completes with the
  chunks written), the click on a link that downloads the Blob of the accumulated chunks under
  \<^verbatim>\<open>currentFileMeta.name\<close>, the toast \<^verbatim>\<open>Received: name\<close>, and an exception.
\<close>

datatype revent =
    LogReceiving "json option"
  | LogStreamSaverFailed
  | LogFileReceived "json option"
  | StreamClosed writer
  | BlobDownload "json option" string
  | ToastReceived "json option"
  | Unhandled rerror

text \<open>
  The \<^verbatim>\<open>try\<close> block that classifies a frame: \<^verbatim>\<open>msg\<close> when \<^verbatim>\<open>isControl\<close> ends up true, \<open>None\<close> when
  it stays false (the frame has 1000 bytes or more, or its text does not start with a brace, or
  \<^verbatim>\<open>JSON.parse\<close> throws).
\<close>

definition startsWith_brace :: "string \<Rightarrow> bool" where
  "startsWith_brace text = (case text of [] \<Rightarrow> False | c # _ \<Rightarrow> c = CHR ''{'')"

definition control_message :: "string \<Rightarrow> json option" where
  "control_message data =
     (if length data < 1000 \<and> startsWith_brace data then JSON_parse data else None)"

text \<open>The branch \<^verbatim>\<open>msg.type === 'file-header'\<close>. It has no \<^verbatim>\<open>await\<close>.\<close>

definition on_header :: "browser \<Rightarrow> receiver \<Rightarrow> json \<Rightarrow> receiver \<times> revent list" where
  "on_header b st msg =
     (let st1 = st\<lparr>currentFileMeta := Some msg, receivedBytes := 0\<rparr>;
          ev = [LogReceiving (get_prop msg ''name'')]
      in if \<not> isIOS b then
           (if streamSaver_supported b then
              (if createWriteStream_throws b
               then (st1\<lparr>chunks := []\<rparr>, ev @ [LogStreamSaverFailed])
               else (st1\<lparr>writable := Some \<lparr>w_name = get_prop msg ''name'',
                                               w_size = get_prop msg ''size'',
                                               w_chunks = [], w_state = Writable\<rparr>\<rparr>, ev))
            else (st1\<lparr>chunks := []\<rparr>, ev))
         else (st1\<lparr>chunks := []\<rparr>, ev))"

text \<open>
  The branch \<^verbatim>\<open>msg.type === 'file-end'\<close>, up to its \<^verbatim>\<open>await\<close> if it has one. With no file open,
  \<^verbatim>\<open>currentFileMeta.name\<close> in the first statement throws a TypeError. With a writer, \<^verbatim>\<open>close()\<close> is
  called and the call is suspended; without one, the branch runs to its end.
\<close>

definition on_end :: "browser \<Rightarrow> receiver \<Rightarrow> receiver \<times> revent list" where
  "on_end b st =
     (case currentFileMeta st of
        None \<Rightarrow> (st, [Unhandled TypeError])
      | Some meta \<Rightarrow>
          (let ev = [LogFileReceived (get_prop meta ''name'')]
           in case writable st of
                Some w \<Rightarrow>
                  if w_state w = Writable \<and> \<not> close_rejects b
                  then (st\<lparr>writable := Some (w\<lparr>w_state := Closing\<rparr>),
                           pending := pending st @ [AfterClose False]\<rparr>,
                        ev @ [StreamClosed w])
                  else (st\<lparr>writable := Some (fail_writer w),
                           pending := pending st @ [AfterClose True]\<rparr>, ev)
              | None \<Rightarrow>
                  (st\<lparr>chunks := [], currentFileMeta := None\<rparr>,
                   ev @ [BlobDownload (get_prop meta ''name'') (concat (chunks st)),
                         ToastReceived (get_prop meta ''name'')])))"

text \<open>
  The part under \<^verbatim>\<open>// Binary Data\<close>, up to its \<^verbatim>\<open>await\<close> if it has one. With a writer, \<^verbatim>\<open>write(data)\<close>
  is called and the call is suspended; without one, the chunk is kept and counted at once.
\<close>

definition on_binary :: "browser \<Rightarrow> receiver \<Rightarrow> string \<Rightarrow> receiver \<times> revent list" where
  "on_binary b st data =
     (case currentFileMeta st of
        None \<Rightarrow> (st, [])
      | Some meta \<Rightarrow>
          (case writable st of
             Some w \<Rightarrow>
               if w_state w = Writable \<and> \<not> write_rejects b
               then (st\<lparr>writable := Some (w\<lparr>w_chunks := w_chunks w @ [data]\<rparr>),
                        pending := pending st @ [AfterWrite False (length data)]\<rparr>, [])
               else (st\<lparr>writable := Some (fail_writer w),
                        pending := pending st @ [AfterWrite True (length data)]\<rparr>, [])
           | None \<Rightarrow>
               (st\<lparr>chunks := chunks st @ [data],
                   receivedBytes := receivedBytes st + length data\<rparr>, [])))"

text \<open>
  A call of the handler of \<^verbatim>\<open>data\<close>, up to its first \<^verbatim>\<open>await\<close> or, when it meets none, to its end.
  A control message of any other type falls through to the binary part, as in the source.
\<close>

definition onData :: "browser \<Rightarrow> receiver \<Rightarrow> string \<Rightarrow> receiver \<times> revent list" where
  "onData b st data =
     (case control_message data of
        None \<Rightarrow> on_binary b st data
      | Some msg \<Rightarrow>
          if get_prop msg ''type'' = Some (JStr ''file-header'') then on_header b st msg
          else if get_prop msg ''type'' = Some (JStr ''file-end'') then on_end b st
          else on_binary b st data)"

text \<open>
  The rest of a suspended call, run on the variables as they are by then. After a write:
  \<^verbatim>\<open>receivedBytes += data.length\<close>. After the close: \<^verbatim>\<open>writable = null\<close>, the toast with
  \<^verbatim>\<open>currentFileMeta.name\<close> (a TypeError when it is null by then) and \<^verbatim>\<open>currentFileMeta = null\<close>. A
  rejected promise makes the \<^verbatim>\<open>await\<close> throw.
\<close>

fun resume :: "receiver \<Rightarrow> continuation \<Rightarrow> receiver \<times> revent list" where
  "resume st (AfterWrite rejected n) =
     (if rejected then (st, [Unhandled WriteRejected])
      else (st\<lparr>receivedBytes := receivedBytes st + n\<rparr>, []))"
| "resume st (AfterClose rejected) =
     (if rejected then (st, [Unhandled CloseRejected])
      else (case currentFileMeta st of
              None \<Rightarrow> (st\<lparr>writable := None\<rparr>, [Unhandled TypeError])
            | Some meta \<Rightarrow>
                (st\<lparr>writable := None, currentFileMeta := None\<rparr>,
                 [ToastReceived (get_prop meta ''name'')])))"

text \<open>The promise of the \<open>k\<close>-th suspended call settles and the call goes on.\<close>

definition settle :: "receiver \<Rightarrow> nat \<Rightarrow> receiver \<times> revent list" where
  "settle st k =
     (if k < length (pending st)
      then resume (st\<lparr>pending := take k (pending st) @ drop (Suc k) (pending st)\<rparr>) (pending st ! k)
      else (st, []))"

text \<open>What a suspended call adds to \<^verbatim>\<open>receivedBytes\<close> when it goes on.\<close>

fun written :: "continuation \<Rightarrow> nat" where
  "written (AfterWrite rejected n) = (if rejected then 0 else n)"
| "written (AfterClose rejected) = 0"

text \<open>
  What happens at the receiver, one thing at a time: a frame arrives and the handler is called,
  or the promise of a suspended call settles. When the promises settle is not in the
  receiver's hands, so a run of the receiver is given as the list of what happened.
\<close>

datatype arrival = Frame string | Settled nat

fun arrive :: "browser \<Rightarrow> receiver \<Rightarrow> arrival \<Rightarrow> receiver \<times> revent list" where
  "arrive b st (Frame data) = onData b st data"
| "arrive b st (Settled k) = settle st k"

fun receive :: "browser \<Rightarrow> receiver \<Rightarrow> arrival list \<Rightarrow> receiver \<times> revent list" where
  "receive b st [] = (st, [])"
| "receive b st (a # rest) =
     (let (st1, ev1) = arrive b st a;
          (st2, ev2) = receive b st1 rest
      in (st2, ev1 @ ev2))"

text \<open>The frames among what happened, in order.\<close>

fun frame_in :: "arrival \<Rightarrow> string option" where
  "frame_in (Frame data) = Some data"
| "frame_in (Settled k) = None"

definition frames_of :: "arrival list \<Rightarrow> string list" where
  "frames_of arrivals = List.map_filter frame_in arrivals"

text \<open>The files the receiver has handed to the user: name and bytes, in order.\<close>

fun saved_file :: "revent \<Rightarrow> (json option \<times> string) option" where
  "saved_file (StreamClosed w) = Some (w_name w, concat (w_chunks w))"
| "saved_file (BlobDownload n bytes) = Some (n, bytes)"
| "saved_file _ = None"

definition files_saved :: "revent list \<Rightarrow> (json option \<times> string) list" where
  "files_saved evs = List.map_filter saved_file evs"

text \<open>Two browsers: one that accumulates chunks for a Blob, one that streams to a writer.\<close>

definition blob_browser :: browser where
  "blob_browser = \<lparr>isIOS = True, streamSaver_supported = False, createWriteStream_throws = False,
                    write_rejects = False, close_rejects = False\<rparr>"

definition stream_browser :: browser where
  "stream_browser = \<lparr>isIOS = False, streamSaver_supported = True, createWriteStream_throws = False,
                      write_rejects = False, close_rejects = False\<rparr>"

text \<open>Whether a browser accumulates the chunks of every file in memory (no stream writer).\<close>

definition accumulates :: "browser \<Rightarrow> bool" where
  "accumulates b \<longleftrightarrow> isIOS b \<or> \<not> streamSaver_supported b \<or> createWriteStream_throws b"

text \<open>
  The state of a stream receiver between the header of a file and its end marker: the writer
  is open and every suspended call waits for a write that succeeds.
\<close>

definition streaming :: "receiver \<Rightarrow> writer \<Rightarrow> bool" where
  "streaming st w \<longleftrightarrow>
     currentFileMeta st \<noteq> None \<and> writable st = Some w \<and> w_state w = Writable \<and>
     (\<forall>c\<in>set (pending st). \<exists>n. c = AfterWrite False n)"

section \<open>The sender (sendFiles of frontend/src/App.jsx)\<close>

text \<open>
  A \<^verbatim>\<open>File\<close>: its name, its \<^verbatim>\<open>webkitRelativePath\<close> (empty unless it was picked through a
  directory) and its bytes. \<^verbatim>\<open>file.size\<close> is the number of bytes.
\<close>

record File =
  name :: string
  webkitRelativePath :: string
  contents :: string

definition file_size :: "File \<Rightarrow> nat" where
  "file_size f = length (contents f)"

definition CHUNK_SIZE :: nat where
  "CHUNK_SIZE = 64 * 1024"

definition BUFFER_THRESHOLD :: nat where
  "BUFFER_THRESHOLD = 1024 * 1024"

text \<open>
  What \<^verbatim>\<open>peerConnection.send\<close> is given: a string (the two control messages) or a Buffer (a
  chunk). The data channel carries a string as its UTF-8 bytes, and the other side's \<^verbatim>\<open>data\<close>
  event hands over a Buffer in both cases.
\<close>

datatype wire = Text string | Binary string

fun wire_bytes :: "wire \<Rightarrow> string" where
  "wire_bytes (Text s) = s"
| "wire_bytes (Binary bytes) = bytes"

text \<open>
  The header of a file:
  \<^verbatim>\<open>JSON.stringify({ type: 'file-header', name: file.name, size: file.size,
  path: file.webkitRelativePath || file.name })\<close>, and the end marker
  \<^verbatim>\<open>JSON.stringify({ type: 'file-end' })\<close>.
\<close>

definition header_object :: "File \<Rightarrow> json" where
  "header_object f =
     JObj [(''type'', JStr ''file-header''),
           (''name'', JStr (name f)),
           (''size'', JNum (decimal (file_size f))),
           (''path'', JStr (if webkitRelativePath f = [] then name f else webkitRelativePath f))]"

definition file_header :: "File \<Rightarrow> string" where
  "file_header f = JSON_stringify (header_object f)"

definition file_end :: string where
  "file_end = JSON_stringify (JObj [(''type'', JStr ''file-end'')])"

text \<open>
  What the sender meets outside itself. \<open>channel\<close> is \<^verbatim>\<open>peerConnection._channel\<close>: \<open>None\<close> when
  there is none, \<open>Some n\<close> when it is there with \<^verbatim>\<open>bufferedAmount\<close> \<open>n\<close>. \<open>readRejects\<close> says
  whether the promise of \<^verbatim>\<open>chunk.arrayBuffer()\<close> settled now rejects.
\<close>

record world =
  channel :: "nat option"
  readRejects :: bool

text \<open>
  The rest of the system: \<open>advance k w\<close> is what has become of \<open>w\<close> when the sender resumes
  after its \<open>k\<close>-th suspension (an \<^verbatim>\<open>await\<close> or a timer): the network may have drained the
  buffer, the channel may have gone, the file may have become unreadable. \<open>send_throws k\<close> says
  whether the call of \<^verbatim>\<open>peerConnection.send\<close> made after \<open>k\<close> earlier calls throws. \<open>date_now k\<close>
  is \<^verbatim>\<open>Date.now()\<close> after \<open>k\<close> suspensions. Between two suspensions only the sender acts.
\<close>

record env =
  advance :: "nat \<Rightarrow> world \<Rightarrow> world"
  send_throws :: "nat \<Rightarrow> bool"
  date_now :: "nat \<Rightarrow> int"

text \<open>
  What the sender does that can be seen, in order: a frame handed to the channel (with
  \<^verbatim>\<open>bufferedAmount\<close> as the call leaves it), a reading of \<^verbatim>\<open>bufferedAmount\<close>, \<^verbatim>\<open>console.error\<close> for a
  file, a toast (text and type), \<^verbatim>\<open>setTransferring\<close> and \<^verbatim>\<open>setSelectedFiles([])\<close>.
\<close>

datatype sevent =
    Sent wire nat
  | BufferedAmount nat
  | ConsoleError string
  | Toast string string
  | SetTransferring bool
  | SetSelectedFiles_empty

text \<open>
  The state of a run of \<^verbatim>\<open>sendFiles\<close>: the world, the number of suspensions and of calls of
  \<^verbatim>\<open>send\<close> so far, the events so far, the local \<^verbatim>\<open>sentBytesTotal\<close> and the progress state
  \<^verbatim>\<open>updateStats\<close> works on.
\<close>

record sender =
  world :: world
  clock :: nat
  calls :: nat
  trace :: "sevent list"
  sentBytesTotal :: nat
  ui :: progress

text \<open>A suspension: the world moves on.\<close>

definition suspend :: "env \<Rightarrow> sender \<Rightarrow> sender" where
  "suspend e st = st\<lparr>world := advance e (clock st) (world st), clock := Suc (clock st)\<rparr>"

text \<open>
  How a part of the run ends: it went through, it threw (the state is the one at the throw),
  or it never resumed (the state is the one before the wait that does not end).
\<close>

datatype 'a outcome = Ok 'a | Threw 'a | Hung 'a

fun state_of :: "'a outcome \<Rightarrow> 'a" where
  "state_of (Ok s) = s"
| "state_of (Threw s) = s"
| "state_of (Hung s) = s"

text \<open>
  \<^verbatim>\<open>peerConnection.send(x)\<close>: it throws when there is no channel (simple-peer calls
  \<^verbatim>\<open>this._channel.send\<close>) and when the channel's \<^verbatim>\<open>send\<close> throws; otherwise the bytes are added
  to the buffer.
\<close>

definition peer_send :: "env \<Rightarrow> sender \<Rightarrow> wire \<Rightarrow> sender outcome" where
  "peer_send e st x =
     (let st0 = st\<lparr>calls := Suc (calls st)\<rparr>
      in case channel (world st) of
           None \<Rightarrow> Threw st0
         | Some n \<Rightarrow>
             if send_throws e (calls st) then Threw st0
             else (let n' = n + length (wire_bytes x)
                   in Ok (st0\<lparr>world := (world st)\<lparr>channel := Some n'\<rparr>,
                              trace := trace st @ [Sent x n']\<rparr>)))"

text \<open>
  The function \<^verbatim>\<open>check\<close> of the backpressure wait: it reads \<^verbatim>\<open>bufferedAmount\<close> and resolves
  when it is below the threshold, and sets a timer for itself otherwise. The promise never
  settles (\<open>None\<close>) when the amount never gets below the threshold, and when the channel is gone
  at a later reading (the TypeError is thrown inside the timer's callback).
\<close>

partial_function (option) waitBelow :: "env \<Rightarrow> sender \<Rightarrow> sender option" where
  "waitBelow e st =
     (case channel (world st) of
        None \<Rightarrow> None
      | Some n \<Rightarrow>
          (let st1 = st\<lparr>trace := trace st @ [BufferedAmount n]\<rparr>
           in if n < BUFFER_THRESHOLD then Some st1 else waitBelow e (suspend e st1)))"

text \<open>
  \<^verbatim>\<open>if (peerConnection._channel && peerConnection._channel.bufferedAmount > BUFFER_THRESHOLD)
  await new Promise(...)\<close>: without a channel nothing is read.
\<close>

definition backpressure :: "env \<Rightarrow> sender \<Rightarrow> sender option" where
  "backpressure e st =
     (case channel (world st) of
        None \<Rightarrow> Some st
      | Some n \<Rightarrow>
          (let st1 = st\<lparr>trace := trace st @ [BufferedAmount n]\<rparr>
           in if n > BUFFER_THRESHOLD then waitBelow e st1 else Some st1))"

text \<open>
  The loop \<^verbatim>\<open>while (offset < file.size)\<close>. \<open>total_bytes\<close>, \<open>total_files\<close> and \<open>i\<close> are only passed
  on to \<^verbatim>\<open>updateStats\<close>.
\<close>

function sendChunks ::
  "env \<Rightarrow> File \<Rightarrow> int \<Rightarrow> int \<Rightarrow> int \<Rightarrow> nat \<Rightarrow> sender \<Rightarrow> sender outcome" where
  "sendChunks e f total_bytes total_files i offset st =
     (if offset < file_size f then
        (let chunk = take CHUNK_SIZE (drop offset (contents f));
             st1 = suspend e st
         in if readRejects (world st1) then Threw st1
            else case backpressure e st1 of
                   None \<Rightarrow> Hung st1
                 | Some st2 \<Rightarrow>
                     (case peer_send e st2 (Binary chunk) of
                        Threw st3 \<Rightarrow> Threw st3
                      | Hung st3 \<Rightarrow> Hung st3
                      | Ok st3 \<Rightarrow>
                          (let st4 = st3\<lparr>sentBytesTotal := sentBytesTotal st3 + length chunk\<rparr>;
                               st5 = st4\<lparr>ui := updateStats (date_now e (clock st4)) (ui st4)
                                                  total_bytes (int (sentBytesTotal st4)) (name f)
                                                  total_files i\<rparr>
                           in sendChunks e f total_bytes total_files i (offset + length chunk) st5)))
      else Ok st)"
  by pat_completeness auto
termination
  by (relation "measure (\<lambda>(e, f, total_bytes, total_files, i, offset, st). file_size f - offset)")
     (auto simp: file_size_def CHUNK_SIZE_def)

declare sendChunks.simps [simp del]

text \<open>The body of the \<^verbatim>\<open>try\<close> block for one file.\<close>

definition sendFile :: "env \<Rightarrow> int \<Rightarrow> int \<Rightarrow> int \<Rightarrow> File \<Rightarrow> sender \<Rightarrow> sender outcome" where
  "sendFile e total_bytes total_files i f st =
     (case peer_send e st (Text (file_header f)) of
        Threw st1 \<Rightarrow> Threw st1
      | Hung st1 \<Rightarrow> Hung st1
      | Ok st1 \<Rightarrow>
          (case sendChunks e f total_bytes total_files i 0 (suspend e st1) of
             Ok st2 \<Rightarrow> peer_send e (suspend e st2) (Text file_end)
           | Threw st2 \<Rightarrow> Threw st2
           | Hung st2 \<Rightarrow> Hung st2))"

text \<open>The \<^verbatim>\<open>catch\<close> block.\<close>

definition report_failure :: "File \<Rightarrow> sender \<Rightarrow> sender" where
  "report_failure f st =
     st\<lparr>trace := trace st @ [ConsoleError (name f), Toast (''Failed to send '' @ name f) ''error'']\<rparr>"

text \<open>The loop \<^verbatim>\<open>for (let i = 0; i < files.length; i++)\<close>, from index \<open>i\<close> on.\<close>

fun sendLoop :: "env \<Rightarrow> int \<Rightarrow> int \<Rightarrow> nat \<Rightarrow> File list \<Rightarrow> sender \<Rightarrow> sender outcome" where
  "sendLoop e total_bytes total_files i [] st = Ok st"
| "sendLoop e total_bytes total_files i (f # fs) st =
     (case sendFile e total_bytes total_files (int i) f st of
        Ok st1 \<Rightarrow> sendLoop e total_bytes total_files (Suc i) fs st1
      | Threw st1 \<Rightarrow> sendLoop e total_bytes total_files (Suc i) fs (report_failure f st1)
      | Hung st1 \<Rightarrow> Hung st1)"

text \<open>\<^verbatim>\<open>files[0]?.name || 'Starting...'\<close>.\<close>

definition first_name :: "File list \<Rightarrow> string" where
  "first_name files =
     (case files of
        [] \<Rightarrow> ''Starting...''
      | f # _ \<Rightarrow> if name f = [] then ''Starting...'' else name f)"

definition sendFiles :: "env \<Rightarrow> File list \<Rightarrow> sender \<Rightarrow> sender outcome" where
  "sendFiles e files st =
     (let total_bytes = int (sum_list (map file_size files));
          total_files = int (length files);
          st1 = st\<lparr>trace := trace st @ [SetTransferring True],
                   sentBytesTotal := 0,
                   ui := \<lparr>stats = \<lparr>totalFiles = total_files, processedFiles = 0,
                                    totalBytes = total_bytes, processedBytes = 0, speed = ''0 MB/s'',
                                    eta = Dashes, currentFile = first_name files\<rparr>,
                          lastBytesRef = 0, lastTimeRef = date_now e (clock st)\<rparr>\<rparr>
      in case sendLoop e total_bytes total_files 0 files st1 of
           Ok st2 \<Rightarrow>
             Ok (st2\<lparr>trace := trace st2 @ [SetTransferring False,
                                             Toast ''All files sent!'' ''success'',
                                             SetSelectedFiles_empty],
                     ui := (ui st2)\<lparr>stats := (stats (ui st2))\<lparr>processedFiles := total_files,
                                                               currentFile := ''Completed!''\<rparr>\<rparr>\<rparr>)
         | Threw st2 \<Rightarrow> Threw st2
         | Hung st2 \<Rightarrow> Hung st2)"

text \<open>The state a run starts from, in a given world.\<close>

definition initial_sender :: "world \<Rightarrow> sender" where
  "initial_sender w =
     \<lparr>world = w, clock = 0, calls = 0, trace = [], sentBytesTotal = 0,
      ui = \<lparr>stats = \<lparr>totalFiles = 0, processedFiles = 0, totalBytes = 0, processedBytes = 0,
                      speed = ''0 MB/s'', eta = Dashes, currentFile = ''Waiting...''\<rparr>,
            lastBytesRef = 0, lastTimeRef = 0\<rparr>\<rparr>"

text \<open>
  The frames the other side receives: the data channel is ordered and reliable, so they are
  the frames handed to it, in order, each as its bytes.
\<close>

fun frame_of :: "sevent \<Rightarrow> wire option" where
  "frame_of (Sent x n) = Some x"
| "frame_of _ = None"

definition frames_sent :: "sevent list \<Rightarrow> wire list" where
  "frames_sent tr = List.map_filter frame_of tr"

definition delivered :: "sevent list \<Rightarrow> string list" where
  "delivered tr = map wire_bytes (frames_sent tr)"

text \<open>
  The frames of one file when nothing fails: the header, the contents cut into chunks of
  \<open>CHUNK_SIZE\<close> bytes from offset \<open>off\<close> on, the end marker.
\<close>

function chunks_from :: "nat \<Rightarrow> string \<Rightarrow> string list" where
  "chunks_from off bytes =
     (if off < length bytes
      then take CHUNK_SIZE (drop off bytes) # chunks_from (off + CHUNK_SIZE) bytes
      else [])"
  by pat_completeness auto
termination
  by (relation "measure (\<lambda>(off, bytes). length bytes - off)") (auto simp: CHUNK_SIZE_def)

declare chunks_from.simps [simp del]

definition file_frames :: "File \<Rightarrow> wire list" where
  "file_frames f =
     Text (file_header f) # map Binary (chunks_from 0 (contents f)) @ [Text file_end]"

declare waitBelow.simps [code]

section \<open>Sample files\<close>

definition file_a :: File where
  "file_a = \<lparr>name = ''a.txt'', webkitRelativePath = [], contents = ''abc''\<rparr>"

definition file_b :: File where
  "file_b = \<lparr>name = ''b.txt'', webkitRelativePath = ''d/b.txt'', contents = ''{}''\<rparr>"

definition file_ten :: File where
  "file_ten = \<lparr>name = ''t.bin'', webkitRelativePath = [], contents = ''0123456789''\<rparr>"

text \<open>The names of the files the \<^verbatim>\<open>catch\<close> block has reported, in order.\<close>

fun failure_of :: "sevent \<Rightarrow> string option" where
  "failure_of (ConsoleError nm) = Some nm"
| "failure_of _ = None"

definition failed_names :: "sevent list \<Rightarrow> string list" where
  "failed_names tr = List.map_filter failure_of tr"

section \<open>Reading a trace of the sender\<close>

text \<open>
  Whether a trace keeps to the backpressure rule is decided by reading it from left to right
  with one of three states: \<open>Idle\<close> (no reading of \<^verbatim>\<open>bufferedAmount\<close> since the last other
  event), \<open>Clear n\<close> (the reading \<open>n\<close> just made allows a chunk) and \<open>Waiting\<close> (a reading above
  the threshold has been made and no reading below it since). A reading above the threshold
  leads to \<open>Waiting\<close>; from \<open>Waiting\<close> only a reading below the threshold leads to \<open>Clear\<close>. A
  chunk may be handed to the channel only in \<open>Clear n\<close> with \<open>n\<close> at most the threshold, and
  leaves the buffer at \<open>n\<close> plus its length, which is at most \<open>CHUNK_SIZE\<close>. The two control
  frames are sent without a reading. \<open>None\<close>: the rule is broken.
\<close>

datatype gate = Idle | Clear nat | Waiting

fun gate_step :: "gate \<Rightarrow> sevent \<Rightarrow> gate option" where
  "gate_step g (BufferedAmount n) =
     (if g = Waiting
      then (if n < BUFFER_THRESHOLD then Some (Clear n) else Some Waiting)
      else (if n > BUFFER_THRESHOLD then Some Waiting else Some (Clear n)))"
| "gate_step g (Sent (Binary c) n') =
     (case g of
        Clear n \<Rightarrow>
          if n \<le> BUFFER_THRESHOLD \<and> n' = n + length c \<and> length c \<le> CHUNK_SIZE
          then Some Idle else None
      | _ \<Rightarrow> None)"
| "gate_step g (Sent (Text s) n') = Some Idle"
| "gate_step g (ConsoleError s) = Some Idle"
| "gate_step g (Toast s t) = Some Idle"
| "gate_step g (SetTransferring v) = Some Idle"
| "gate_step g SetSelectedFiles_empty = Some Idle"

fun gate_run :: "gate \<Rightarrow> sevent list \<Rightarrow> gate option" where
  "gate_run g [] = Some g"
| "gate_run g (ev # evs) =
     (case gate_step g ev of
        None \<Rightarrow> None
      | Some g' \<Rightarrow> gate_run g' evs)"

definition backpressure_respected :: "sevent list \<Rightarrow> bool" where
  "backpressure_respected tr \<longleftrightarrow> gate_run Idle tr \<noteq> None"

section \<open>Sample worlds\<close>

text \<open>
  A channel with an empty buffer and surroundings that never fail and never drain; a channel
  with three million bytes buffered and surroundings that take 600000 bytes off the buffer at
  every suspension; surroundings in which the third call of \<^verbatim>\<open>send\<close> throws.
\<close>

definition clear_world :: world where
  "clear_world = \<lparr>channel = Some 0, readRejects = False\<rparr>"

definition still_env :: env where
  "still_env = \<lparr>advance = (\<lambda>k w. w), send_throws = (\<lambda>k. False), date_now = (\<lambda>k. 400 * int k)\<rparr>"

definition busy_world :: world where
  "busy_world = \<lparr>channel = Some 3000000, readRejects = False\<rparr>"

definition draining_env :: env where
  "draining_env =
     \<lparr>advance = (\<lambda>k w. w\<lparr>channel := map_option (\<lambda>n. n - 600000) (channel w)\<rparr>),
      send_throws = (\<lambda>k. False), date_now = (\<lambda>k. 400 * int k)\<rparr>"

definition failing_env :: env where
  "failing_env = \<lparr>advance = (\<lambda>k w. w), send_throws = (\<lambda>k. k = 2), date_now = (\<lambda>k. 400 * int k)\<rparr>"

text \<open>
  Surroundings in which the peer is destroyed while the sender sits in its third suspension:
  when it resumes, \<^verbatim>\<open>peerConnection._channel\<close> is null.
\<close>

definition vanish_env :: env where
  "vanish_env =
     \<lparr>advance = (\<lambda>k w. if k = 2 then w\<lparr>channel := None\<rparr> else w),
      send_throws = (\<lambda>k. False), date_now = (\<lambda>k. 400 * int k)\<rparr>"

section \<open>Frames as the receiver tells them apart\<close>

text \<open>
  The three branches of the handler, as a function of the frame alone: a control message of
  type \<^verbatim>\<open>file-header\<close>, one of type \<^verbatim>\<open>file-end\<close>, and everything else, which is taken as data.
\<close>

datatype frame_kind = Header json | EndMarker | DataChunk

definition classify :: "string \<Rightarrow> frame_kind" where
  "classify data =
     (case control_message data of
        None \<Rightarrow> DataChunk
      | Some msg \<Rightarrow>
          if get_prop msg ''type'' = Some (JStr ''file-header'') then Header msg
          else if get_prop msg ''type'' = Some (JStr ''file-end'') then EndMarker
          else DataChunk)"

text \<open>A file whose contents are the text of an end marker.\<close>

definition file_marker :: File where
  "file_marker = \<lparr>name = ''m.json'', webkitRelativePath = [], contents = ''{\"type\":\"file-end\"}''\<rparr>"

section \<open>Properties of the rendezvous server\<close>

lemma Map_set_keys: "fst ` set (Map_set k v m) = insert k (fst ` set m)"
  by (induction m) auto

lemma Map_set_distinct: "distinct (map fst m) \<Longrightarrow> distinct (map fst (Map_set k v m))"
  by (induction m) (auto simp: Map_set_keys)

lemma Map_set_all: "list_all P m \<Longrightarrow> P (k, v) \<Longrightarrow> list_all P (Map_set k v m)"
  by (induction m) auto

lemma server_inv_step: "server_inv st \<Longrightarrow> server_inv (fst (step st e))"
proof (cases e)
  case (Pair sid ev)
  assume inv: "server_inv st"
  show ?thesis
  proof (cases ev)
    case Connect
    with Pair inv show ?thesis
      by (auto simp: server_inv_def on_connection_def)
  next
    case (Join dname)
    with Pair inv show ?thesis
      by (auto simp: server_inv_def on_join_def Let_def Map_set_keys Map_set_distinct Map_set_all)
  next
    case (Signal to sg fr)
    with Pair inv show ?thesis by (simp add: on_signal_def)
  next
    case (BatchRequest to fr a b c)
    with Pair inv show ?thesis by (simp add: on_batch_request_def)
  next
    case (BatchAnswer to a)
    with Pair inv show ?thesis by (simp add: on_batch_answer_def)
  next
    case Disconnect
    with Pair inv show ?thesis
      by (auto simp: server_inv_def on_disconnect_def Let_def Map_delete_def Map_get_def
          list_all_iff distinct_map_filter distinct_removeAll map_of_eq_None_iff
          split: option.splits)
  qed
qed

lemma server_inv_foldl: "server_inv st \<Longrightarrow> server_inv (foldl (\<lambda>st e. fst (step st e)) st evs)"
  by (induction evs arbitrary: st) (auto simp: server_inv_step)

lemma server_inv_run: "server_inv (run evs)"
  unfolding run_def by (rule server_inv_foldl) (simp add: server_inv_def initial_server_def)

lemma filter_self_length:
  "distinct (map fst m) \<Longrightarrow> list_all (\<lambda>p. user_id (snd p) = fst p) m \<Longrightarrow> p \<in> fst ` set m \<Longrightarrow>
   Suc (length (filter (\<lambda>u. user_id u \<noteq> p) (map snd m))) = length m"
proof (induction m)
  case Nil
  then show ?case by simp
next
  case (Cons a m)
  show ?case
  proof (cases "fst a = p")
    case True
    with Cons.prems have "p \<notin> fst ` set m" by auto
    with Cons.prems have "\<forall>q\<in>set m. user_id (snd q) \<noteq> p"
      by (force simp: list_all_iff)
    then have "filter (\<lambda>u. user_id u \<noteq> p) (map snd m) = map snd m"
      by (auto simp: filter_id_conv)
    with True Cons.prems show ?thesis by simp
  next
    case False
    with Cons show ?thesis by auto
  qed
qed

text \<open>
  Claim C3. In every state the server reaches, with N peers registered, a broadcast reaches
  every registered peer \<open>p\<close>, and the peer list \<open>p\<close> ends up with (the list of the broadcast
  after the client's own handler of \<^verbatim>\<open>users\<close> has taken out the entry with \<open>p\<close>'s id) has
  exactly N - 1 entries, none of them with the id of \<open>p\<close>. The server itself sends the same full
  list to everyone; the exclusion is the work of the receiving client's handler.
\<close>

theorem broadcast_excludes_self:
  fixes evs :: "(string \<times> 'a client_event) list"
  assumes "p \<in> fst ` set (users (run evs))"
  shows "(p, Users (Map_values (users (run evs)))) \<in> set (broadcastUsers (run evs) :: (string \<times> 'a server_msg) list)
       \<and> (\<forall>l. (p, Users l) \<in> set (broadcastUsers (run evs) :: (string \<times> 'a server_msg) list) \<longrightarrow>
              Suc (length (client_on_users p l)) = length (users (run evs))
              \<and> p \<notin> user_id ` set (client_on_users p l))"
proof -
  have inv: "server_inv (run evs)" by (rule server_inv_run)
  from inv assms have "p \<in> set (sockets (run evs))" by (auto simp: server_inv_def)
  then have 1: "(p, Users (Map_values (users (run evs)))) \<in> set (broadcastUsers (run evs) :: (string \<times> 'a server_msg) list)"
    by (auto simp: broadcastUsers_def io_to_emit_def in_room_def)
  have 2: "Suc (length (client_on_users p (Map_values (users (run evs))))) = length (users (run evs))"
    unfolding client_on_users_def Map_values_def
    using inv assms by (intro filter_self_length) (auto simp: server_inv_def)
  have 3: "p \<notin> user_id ` set (client_on_users p l)" for l
    by (auto simp: client_on_users_def)
  have 4: "l = Map_values (users (run evs))"
    if "(p, Users l) \<in> set (broadcastUsers (run evs) :: (string \<times> 'a server_msg) list)" for l
    using that by (auto simp: broadcastUsers_def io_to_emit_def)
  from 1 2 3 4 show ?thesis by blast
qed

lemma run_three_peers: "run three_peers = \<lparr>sockets = [''a1'', ''b1'', ''c1''],
    users = [(''a1'', \<lparr>user_id = ''a1'', user_name = ''Ann''\<rparr>),
             (''b1'', \<lparr>user_id = ''b1'', user_name = ''User-b1''\<rparr>),
             (''c1'', \<lparr>user_id = ''c1'', user_name = ''Cy''\<rparr>)]\<rparr>"
  by code_simp

theorem broadcast_excludes_self_witness:
  "''b1'' \<in> fst ` set (users (run three_peers)) \<and>
   length (users (run three_peers)) = 3 \<and>
   (''b1'', Users (Map_values (users (run three_peers)))) \<in> set (broadcastUsers (run three_peers) :: (string \<times> unit server_msg) list) \<and>
   client_on_users ''b1'' (Map_values (users (run three_peers)))
     = [\<lparr>user_id = ''a1'', user_name = ''Ann''\<rparr>, \<lparr>user_id = ''c1'', user_name = ''Cy''\<rparr>]"
proof -
  have h: "''b1'' \<in> fst ` set (users (run three_peers))"
    by (simp add: run_three_peers)
  from broadcast_excludes_self [OF h] h show ?thesis
    by (simp add: run_three_peers client_on_users_def Map_values_def)
qed

lemma run_peer_not_joined:
  "run peer_not_joined = \<lparr>sockets = [''a1'', ''b1''],
     users = [(''a1'', \<lparr>user_id = ''a1'', user_name = ''Ann''\<rparr>)]\<rparr>"
  by code_simp

text \<open>
  Claim C4, as stated, fails. The handlers of \<^verbatim>\<open>signal\<close> and \<^verbatim>\<open>batch-request\<close> never look the
  destination up in the registry to decide anything: they emit to the socket.io room named by
  \<^verbatim>\<open>to\<close>. A socket that is connected but has not emitted \<^verbatim>\<open>join\<close> is not registered, and a
  message addressed to its id is delivered to it all the same.
\<close>

theorem relay_unregistered_counterexample:
  "''b1'' \<notin> fst ` set (users (run peer_not_joined)) \<and>
   snd (on_signal (run peer_not_joined) ''b1'' (7::nat) ''a1'') = [(''b1'', SignalMsg 7 ''a1'')] \<and>
   snd (on_batch_request (run peer_not_joined) ''b1'' ''a1'' (2::nat) 3 4)
     = [(''b1'', BatchRequestMsg ''a1'' ''Ann'' 2 3 4)]"
  by (simp add: run_peer_not_joined on_signal_def on_batch_request_def io_to_emit_def in_room_def
      MAIN_LOBBY_def fromName_of_def Map_get_def)

lemma filter_eq_distinct: "distinct xs \<Longrightarrow> x \<in> set xs \<Longrightarrow> filter (\<lambda>s. s = x) xs = [x]"
  by (induction xs) (auto simp: filter_empty_conv)

lemma io_to_emit_connected:
  "distinct (sockets st) \<Longrightarrow> to \<in> set (sockets st) \<Longrightarrow> to \<noteq> MAIN_LOBBY \<Longrightarrow>
   io_to_emit st to m = [(to, m)]"
proof -
  assume d: "distinct (sockets st)" and i: "to \<in> set (sockets st)" and n: "to \<noteq> MAIN_LOBBY"
  from n have "filter (\<lambda>s. in_room s to) (sockets st) = filter (\<lambda>s. s = to) (sockets st)"
    by (auto simp: in_room_def intro: filter_cong)
  with d i show ?thesis
    by (simp add: io_to_emit_def filter_eq_distinct)
qed

lemma io_to_emit_absent:
  "to \<notin> set (sockets st) \<Longrightarrow> to \<noteq> MAIN_LOBBY \<Longrightarrow> io_to_emit st to m = []"
  by (auto simp: io_to_emit_def in_room_def filter_empty_conv)

text \<open>
  Claim C4, amended. In every state the server reaches, a relayed signal or request goes to the
  room named by its destination: when the destination is registered, it and nobody else
  receives the message, with the signal and the request's count, size label and byte total as
  they came (the request with \<^verbatim>\<open>fromName\<close> added from the registry); when no connected socket has
  the destination's id (and it is not the lobby's name), nothing is emitted to anybody, the
  sender included, and the state is unchanged.
\<close>

theorem relay_by_room:
  fixes evs :: "(string \<times> 'a client_event) list" and signal cnt label bytes :: 'a
  shows "(to \<in> fst ` set (users (run evs)) \<longrightarrow>
            on_signal (run evs) to signal from_id = (run evs, [(to, SignalMsg signal from_id)]) \<and>
            on_batch_request (run evs) to from_id cnt label bytes =
              (run evs, [(to, BatchRequestMsg from_id (fromName_of (run evs) from_id) cnt label bytes)]))
       \<and> (to \<notin> set (sockets (run evs)) \<and> to \<noteq> MAIN_LOBBY \<longrightarrow>
            on_signal (run evs) to signal from_id = (run evs, []) \<and>
            on_batch_request (run evs) to from_id cnt label bytes = (run evs, []))"
proof -
  have inv: "server_inv (run evs)" by (rule server_inv_run)
  have reg: "to \<in> set (sockets (run evs)) \<and> to \<noteq> MAIN_LOBBY \<and> distinct (sockets (run evs))"
    if "to \<in> fst ` set (users (run evs))"
    using inv that by (auto simp: server_inv_def)
  show ?thesis
    using reg by (auto simp: on_signal_def on_batch_request_def io_to_emit_connected io_to_emit_absent)
qed

theorem relay_by_room_witness:
  "''a1'' \<in> fst ` set (users (run peer_not_joined)) \<and>
   on_signal (run peer_not_joined) ''a1'' (7::nat) ''b1'' = (run peer_not_joined, [(''a1'', SignalMsg 7 ''b1'')]) \<and>
   on_batch_request (run peer_not_joined) ''a1'' ''b1'' (2::nat) 3 4 =
     (run peer_not_joined, [(''a1'', BatchRequestMsg ''b1'' ''Unknown'' 2 3 4)]) \<and>
   ''zz'' \<notin> set (sockets (run peer_not_joined)) \<and> ''zz'' \<noteq> MAIN_LOBBY \<and>
   on_signal (run peer_not_joined) ''zz'' (7::nat) ''a1'' = (run peer_not_joined, []) \<and>
   on_batch_request (run peer_not_joined) ''zz'' ''a1'' (2::nat) 3 4 = (run peer_not_joined, [])"
proof -
  have h1: "''a1'' \<in> fst ` set (users (run peer_not_joined))"
    by (simp add: run_peer_not_joined)
  have h2: "''zz'' \<notin> set (sockets (run peer_not_joined)) \<and> ''zz'' \<noteq> MAIN_LOBBY"
    by (simp add: run_peer_not_joined MAIN_LOBBY_def)
  have f: "fromName_of (run peer_not_joined) ''b1'' = ''Unknown''"
    by (simp add: run_peer_not_joined fromName_of_def Map_get_def)
  from relay_by_room [of "''a1''" peer_not_joined "7::nat" "''b1''" "2::nat" "3::nat" "4::nat"]
       relay_by_room [of "''zz''" peer_not_joined "7::nat" "''a1''" "2::nat" "3::nat" "4::nat"] h1 h2 f
  show ?thesis by simp
qed

section \<open>Properties of the numbers\<close>

text \<open>The number of binary digits and the exponent.\<close>

lemma bits_nonneg: "0 \<le> bits n"
  by (induction n rule: bits.induct) (subst bits.simps, simp)

lemma bits_pos: "0 < n \<Longrightarrow> 0 < bits n"
  using bits_nonneg [of "n div 2"] by (subst bits.simps) simp

lemma bits_bounds_int: "0 < n \<Longrightarrow> 2 ^ nat (bits n - 1) \<le> n \<and> n < 2 ^ nat (bits n)"
proof (induction n rule: bits.induct)
  case (1 n)
  show ?case
  proof (cases "n = 1")
    case True
    have "bits 1 = 1" by (simp add: bits.simps)
    with True show ?thesis by simp
  next
    case False
    with "1.prems" have m: "0 < n div 2" by simp
    with "1.prems" "1.IH" have ih: "2 ^ nat (bits (n div 2) - 1) \<le> n div 2"
      "n div 2 < 2 ^ nat (bits (n div 2))"
      by simp_all
    from "1.prems" have b: "bits n = bits (n div 2) + 1"
      by (subst bits.simps) simp
    from bits_pos [OF m] have s: "nat (bits (n div 2)) = Suc (nat (bits (n div 2) - 1))"
      by simp
    have "2 ^ nat (bits n - 1) = 2 * (2::int) ^ nat (bits (n div 2) - 1)"
      unfolding b using s by simp
    also have "\<dots> \<le> 2 * (n div 2)" using ih(1) by simp
    also have "\<dots> \<le> n" by simp
    finally have lo: "2 ^ nat (bits n - 1) \<le> n" .
    from ih(2) have "n div 2 + 1 \<le> 2 ^ nat (bits (n div 2))" by simp
    then have "2 * (n div 2) + 2 \<le> 2 * 2 ^ nat (bits (n div 2))" by simp
    moreover have "n < 2 * (n div 2) + 2" by presburger
    moreover have "(2::int) ^ nat (bits n) = 2 * 2 ^ nat (bits (n div 2))"
      unfolding b using bits_nonneg [of "n div 2"] by (simp add: nat_add_distrib)
    ultimately have "n < 2 ^ nat (bits n)" by simp
    with lo show ?thesis ..
  qed
qed

lemma powi_nat: "0 \<le> k \<Longrightarrow> (2::rat) powi k = of_int (2 ^ nat k)"
  by (simp add: power_int_def)

lemma bits_bounds:
  assumes "0 < n"
  shows "(2::rat) powi (bits n - 1) \<le> of_int n" "of_int n < (2::rat) powi (bits n)"
proof -
  from bits_pos [OF assms] have "0 \<le> bits n - 1" "0 \<le> bits n" by simp_all
  then have e: "(2::rat) powi (bits n - 1) = of_int (2 ^ nat (bits n - 1))"
    "(2::rat) powi (bits n) = of_int (2 ^ nat (bits n))"
    by (simp_all only: powi_nat)
  from bits_bounds_int [OF assms] show "(2::rat) powi (bits n - 1) \<le> of_int n"
    unfolding e by (simp only: of_int_le_iff)
  from bits_bounds_int [OF assms] show "of_int n < (2::rat) powi (bits n)"
    unfolding e by (simp only: of_int_less_iff)
qed

lemma ilog2_bounds:
  assumes "0 < x"
  shows "2 powi (ilog2 x) \<le> x" "x < 2 powi (ilog2 x + 1)"
proof -
  obtain p q where pq: "quotient_of x = (p, q)" by (cases "quotient_of x")
  then have q: "0 < q" and x: "x = of_int p / of_int q"
    by (auto dest: quotient_of_denom_pos quotient_of_div)
  from assms x q have p: "0 < p"
    by (simp add: zero_less_divide_iff)
  let ?k = "bits p - bits q"
  have qpos: "(0::rat) < of_int q" using q by simp
  have "x < 2 powi (bits p) / 2 powi (bits q - 1)"
  proof -
    have "x < 2 powi (bits p) / of_int q"
      unfolding x using bits_bounds(2) [OF p] qpos by (simp add: divide_strict_right_mono)
    also have "\<dots> \<le> 2 powi (bits p) / 2 powi (bits q - 1)"
      using bits_bounds(1) [OF q] qpos
      by (intro divide_left_mono) (simp_all add: zero_less_mult_iff)
    finally show ?thesis .
  qed
  also have "\<dots> = 2 powi (?k + 1)"
    by (simp add: power_int_diff power_int_add)
  finally have up: "x < 2 powi (?k + 1)" .
  have "2 powi (?k - 1) = 2 powi (bits p - 1) / (2::rat) powi (bits q)"
    by (simp add: power_int_diff)
  also have "\<dots> \<le> of_int p / 2 powi (bits q)"
    using bits_bounds(1) [OF p] by (simp add: divide_right_mono)
  also have "\<dots> \<le> x"
    unfolding x using bits_bounds(2) [OF q] p qpos
    by (intro divide_left_mono) simp_all
  finally have lo: "2 powi (?k - 1) \<le> x" .
  show "2 powi (ilog2 x) \<le> x" "x < 2 powi (ilog2 x + 1)"
    using up lo by (auto simp: ilog2_def pq Let_def not_le)
qed

lemma ilog2_mono:
  assumes "0 < x" "x \<le> y"
  shows "ilog2 x \<le> ilog2 y"
proof (rule ccontr)
  assume "\<not> ilog2 x \<le> ilog2 y"
  then have "ilog2 y + 1 \<le> ilog2 x" by simp
  then have "(2::rat) powi (ilog2 y + 1) \<le> 2 powi (ilog2 x)"
    by (intro power_int_increasing) simp_all
  also have "\<dots> \<le> x" using assms(1) by (rule ilog2_bounds)
  also have "\<dots> \<le> y" by fact
  also have "\<dots> < 2 powi (ilog2 y + 1)" using assms by (intro ilog2_bounds) simp
  finally show False by simp
qed

lemma round_even_bounds:
  "of_int (round_even y) \<le> y + 1 / 2" "y - 1 / 2 \<le> of_int (round_even y)"
  by (auto simp: round_even_def Let_def) linarith+

lemma round_even_of_int: "round_even (of_int n) = n"
  by (simp add: round_even_def)

lemma round_even_mono:
  assumes "a \<le> b"
  shows "round_even a \<le> round_even b"
proof (cases "a = b")
  case True
  then show ?thesis by simp
next
  case False
  with assms have lt: "a < b" by simp
  show ?thesis
  proof (rule ccontr)
    assume "\<not> round_even a \<le> round_even b"
    then have "round_even b + 1 \<le> round_even a" by simp
    then have "(of_int (round_even b) :: rat) + 1 \<le> of_int (round_even a)"
      by (metis of_int_1 of_int_add of_int_le_iff)
    with round_even_bounds(1) [of a] round_even_bounds(2) [of b] lt
    show False by linarith
  qed
qed

lemma round_even_nonneg: "0 \<le> y \<Longrightarrow> 0 \<le> round_even y"
  using round_even_mono [of 0 y] round_even_of_int [of 0] by simp

lemma ulp_pos: "0 < ulp x"
  by (simp add: ulp_def)

lemma ulp_minus: "ulp (- x) = ulp x"
  by (simp add: ulp_def)

lemma fl_minus: "fl (- x) = - fl x"
  by (simp add: fl_def ulp_minus sgn_if)

lemma fl_0: "fl 0 = 0"
  by (simp add: fl_def)

lemma fl_pos_eq: "0 < x \<Longrightarrow> fl x = of_int (round_even (x / ulp x)) * ulp x"
  by (simp add: fl_def)

lemma fl_nonneg: "0 \<le> x \<Longrightarrow> 0 \<le> fl x"
proof (cases "x = 0")
  case True
  then show ?thesis by (simp add: fl_0)
next
  case False
  assume "0 \<le> x"
  with False have x: "0 < x" by simp
  then have "0 \<le> x / ulp x" using ulp_pos [of x] by simp
  then have "0 \<le> round_even (x / ulp x)" by (rule round_even_nonneg)
  with x show ?thesis
    using ulp_pos [of x] by (simp add: fl_pos_eq)
qed

lemma ulp_eq: "0 < x \<Longrightarrow> ulp x = 2 powi (max (ilog2 x) (- 1022) - 52)"
  by (simp add: ulp_def)

lemma fl_upper:
  assumes "0 < x"
  shows "fl x \<le> 2 powi (max (ilog2 x) (- 1022) + 1)"
proof -
  let ?e = "max (ilog2 x) (- 1022)"
  have u: "ulp x = 2 powi (?e - 52)" using assms by (rule ulp_eq)
  have "x < 2 powi (ilog2 x + 1)" using assms by (rule ilog2_bounds)
  also have "\<dots> \<le> 2 powi (?e + 1)" by (intro power_int_increasing) simp_all
  finally have "x / ulp x \<le> 2 powi (?e + 1) / ulp x"
    using ulp_pos [of x] by (simp add: divide_right_mono)
  also have "\<dots> = 2 powi 53"
    unfolding u by (simp add: power_int_diff [symmetric])
  also have "\<dots> = of_int (2 ^ 53)" by simp
  finally have "round_even (x / ulp x) \<le> round_even (of_int (2 ^ 53))"
    by (rule round_even_mono)
  then have "round_even (x / ulp x) \<le> 2 ^ 53"
    by (simp only: round_even_of_int)
  then have "(of_int (round_even (x / ulp x)) :: rat) \<le> of_int (2 ^ 53)"
    by (simp only: of_int_le_iff)
  then have "fl x \<le> of_int (2 ^ 53) * ulp x"
    using ulp_pos [of x] assms by (simp add: fl_pos_eq)
  also have "\<dots> = 2 powi 53 * 2 powi (?e - 52)" unfolding u by simp
  also have "\<dots> = 2 powi (53 + (?e - 52))"
    by (rule power_int_add [symmetric]) simp
  also have "53 + (?e - 52) = ?e + 1" by simp
  finally show ?thesis .
qed

lemma fl_lower:
  assumes "0 < x" and "- 1022 \<le> ilog2 x"
  shows "2 powi (ilog2 x) \<le> fl x"
proof -
  let ?e = "ilog2 x"
  have u: "ulp x = 2 powi (?e - 52)" using assms by (simp add: ulp_eq max_def)
  have "2 powi 52 = 2 powi ?e / ulp x"
    unfolding u by (simp add: power_int_diff [symmetric])
  also have "\<dots> \<le> x / ulp x"
    using ilog2_bounds(1) [OF assms(1)] ulp_pos [of x] by (simp add: divide_right_mono)
  finally have "(of_int (2 ^ 52) :: rat) \<le> x / ulp x" by simp
  then have "round_even (of_int (2 ^ 52)) \<le> round_even (x / ulp x)"
    by (rule round_even_mono)
  then have "2 ^ 52 \<le> round_even (x / ulp x)"
    by (simp only: round_even_of_int)
  then have "(of_int (2 ^ 52) :: rat) \<le> of_int (round_even (x / ulp x))"
    by (simp only: of_int_le_iff)
  then have "of_int (2 ^ 52) * ulp x \<le> fl x"
    using ulp_pos [of x] assms(1) by (simp add: fl_pos_eq)
  moreover have "of_int (2 ^ 52) * ulp x = 2 powi 52 * 2 powi (?e - 52)" unfolding u by simp
  moreover have "2 powi 52 * 2 powi (?e - 52) = (2::rat) powi (52 + (?e - 52))"
    by (rule power_int_add [symmetric]) simp
  moreover have "52 + (?e - 52) = ?e" by simp
  ultimately show ?thesis by simp
qed

lemma fl_mono_pos:
  assumes "0 < x" "x \<le> y"
  shows "fl x \<le> fl y"
proof -
  from assms have y: "0 < y" by simp
  let ?ex = "max (ilog2 x) (- 1022)" and ?ey = "max (ilog2 y) (- 1022)"
  from ilog2_mono [OF assms] have le: "?ex \<le> ?ey" by simp
  show ?thesis
  proof (cases "?ex = ?ey")
    case True
    then have u: "ulp x = ulp y" using assms(1) y by (simp add: ulp_eq)
    from assms(2) have "x / ulp y \<le> y / ulp y"
      using ulp_pos [of y] by (simp add: divide_right_mono)
    then have "round_even (x / ulp y) \<le> round_even (y / ulp y)" by (rule round_even_mono)
    then have "(of_int (round_even (x / ulp y)) :: rat) \<le> of_int (round_even (y / ulp y))"
      by (simp only: of_int_le_iff)
    then show ?thesis
      using ulp_pos [of y] assms(1) y by (simp add: fl_pos_eq u)
  next
    case False
    with le have lt: "?ex < ?ey" by linarith
    then have n: "- 1022 \<le> ilog2 y" and ey: "?ey = ilog2 y"
      by (auto simp: max_def split: if_splits)
    have "fl x \<le> 2 powi (?ex + 1)" using assms(1) by (rule fl_upper)
    also have "\<dots> \<le> 2 powi (ilog2 y)"
    proof (rule power_int_increasing)
      from lt ey show "?ex + 1 \<le> ilog2 y" by linarith
    qed simp
    also have "\<dots> \<le> fl y" using y n by (rule fl_lower)
    finally show ?thesis .
  qed
qed

lemma fl_mono:
  assumes "x \<le> y"
  shows "fl x \<le> fl y"
proof -
  consider "0 < x" | "x \<le> 0" "0 \<le> y" | "y < 0" by linarith
  then show ?thesis
  proof cases
    case 1
    then show ?thesis using assms by (rule fl_mono_pos)
  next
    case 2
    from 2(1) have "0 \<le> fl (- x)" by (intro fl_nonneg) simp
    then have "fl x \<le> 0" by (simp add: fl_minus)
    also have "0 \<le> fl y" using 2(2) by (rule fl_nonneg)
    finally show ?thesis .
  next
    case 3
    with assms have "0 < - y" "- y \<le> - x" by simp_all
    then have "fl (- y) \<le> fl (- x)" by (rule fl_mono_pos)
    then show ?thesis by (simp add: fl_minus)
  qed
qed


text \<open>
  The rounded value is within half a unit in the last place of the exact one; for a number
  of magnitude \<open>2 powi (- 1022)\<close> or more this is a relative error of at most \<open>1 / 2 ^ 53\<close>.
\<close>

lemma fl_error: "\<bar>fl x - x\<bar> \<le> ulp x / 2"
proof -
  have pos: "\<bar>fl x - x\<bar> \<le> ulp x / 2" if "0 < x" for x
  proof -
    let ?u = "ulp x" and ?r = "of_int (round_even (x / ulp x)) :: rat"
    have u: "0 < ?u" by (rule ulp_pos)
    have "fl x - x = (?r - x / ?u) * ?u"
      using u that by (simp add: fl_pos_eq algebra_simps)
    moreover have "\<bar>?r - x / ?u\<bar> \<le> 1 / 2"
      using round_even_bounds [of "x / ?u"] by linarith
    ultimately have "\<bar>fl x - x\<bar> \<le> 1 / 2 * ?u"
      using u by (simp add: abs_mult mult_right_mono)
    then show ?thesis by simp
  qed
  consider "0 < x" | "x = 0" | "x < 0" by linarith
  then show ?thesis
  proof cases
    case 1
    then show ?thesis by (rule pos)
  next
    case 2
    then show ?thesis using ulp_pos [of 0] by (simp add: fl_0)
  next
    case 3
    then have "\<bar>fl (- x) - (- x)\<bar> \<le> ulp (- x) / 2" by (intro pos) simp
    then show ?thesis by (simp add: fl_minus ulp_minus abs_minus_commute)
  qed
qed

lemma fl_relative_error:
  assumes "2 powi (- 1022) \<le> \<bar>x\<bar>"
  shows "\<bar>fl x - x\<bar> \<le> \<bar>x\<bar> / 2 ^ 53"
proof -
  have p: "(0::rat) < 2 powi (- 1022)" by (simp add: zero_less_power_int)
  with assms have x: "0 < \<bar>x\<bar>" by linarith
  have "ilog2 (2 powi (- 1022)) \<le> ilog2 \<bar>x\<bar>"
    using p assms by (rule ilog2_mono)
  moreover have "- 1022 \<le> ilog2 (2 powi (- 1022))"
  proof (rule ccontr)
    assume "\<not> - 1022 \<le> ilog2 (2 powi (- 1022))"
    then have "ilog2 (2 powi (- 1022)) + 1 \<le> - 1022" by simp
    then have "(2::rat) powi (ilog2 (2 powi (- 1022)) + 1) \<le> 2 powi (- 1022)"
      by (intro power_int_increasing) simp_all
    with ilog2_bounds(2) [OF p] show False by simp
  qed
  ultimately have e: "- 1022 \<le> ilog2 \<bar>x\<bar>" by simp
  then have "ulp x = 2 powi (ilog2 \<bar>x\<bar> - 52)" by (simp add: ulp_def max_def)
  also have "\<dots> = 2 powi (ilog2 \<bar>x\<bar>) / 2 powi 52" by (simp add: power_int_diff)
  also have "\<dots> \<le> \<bar>x\<bar> / 2 powi 52"
    using ilog2_bounds(1) [OF x] by (simp add: divide_right_mono)
  finally have "ulp x / 2 \<le> \<bar>x\<bar> / 2 powi 52 / 2" by simp
  also have "\<dots> = \<bar>x\<bar> / 2 ^ 53" by simp
  finally show ?thesis using fl_error [of x] by linarith
qed

text \<open>
  Integers up to \<open>2 ^ 53\<close> in magnitude are doubles: rounding leaves them as they are.
\<close>

lemma fl_of_int_pos:
  assumes "0 < n" "n \<le> 2 ^ 53"
  shows "fl (of_int n) = of_int n"
proof -
  let ?x = "of_int n :: rat"
  let ?e = "ilog2 ?x"
  have x: "0 < ?x" using assms(1) by simp
  have "(1::rat) \<le> ?x" using assms(1) by simp
  then have "ilog2 1 \<le> ?e" by (intro ilog2_mono) simp_all
  moreover have "ilog2 1 = 0" by code_simp
  ultimately have e0: "0 \<le> ?e" by simp
  then have u: "ulp ?x = 2 powi (?e - 52)" using x by (simp add: ulp_eq max_def)
  have "2 powi ?e \<le> ?x" using x by (rule ilog2_bounds)
  also have "?x \<le> of_int (2 ^ 53)" using assms(2) by (simp only: of_int_le_iff)
  also have "\<dots> = 2 powi 53" by simp
  finally have "?e \<le> 53" by (rule power_int_le_imp_le_exp [rotated]) simp_all
  have "\<exists>m. ?x / ulp ?x = of_int m"
  proof (cases "?e \<le> 52")
    case True
    have "?x / ulp ?x = ?x * 2 powi (52 - ?e)"
      unfolding u by (simp add: power_int_diff)
    also have "2 powi (52 - ?e) = (of_int (2 ^ nat (52 - ?e)) :: rat)"
      using True by (simp add: power_int_def)
    finally have "?x / ulp ?x = of_int (n * 2 ^ nat (52 - ?e))" by simp
    then show ?thesis ..
  next
    case False
    with \<open>?e \<le> 53\<close> have e: "?e = 53" by simp
    from \<open>2 powi ?e \<le> ?x\<close> e have "(of_int (2 ^ 53) :: rat) \<le> of_int n" by simp
    then have "2 ^ 53 \<le> n" by (simp only: of_int_le_iff)
    with assms(2) have n: "n = 2 ^ 53" by simp
    have "ulp ?x = 2" using u e by simp
    then have "?x / ulp ?x = of_int n / 2" by simp
    also have "\<dots> = of_int (2 ^ 52)" unfolding n by simp
    finally show ?thesis ..
  qed
  then obtain m where m: "?x / ulp ?x = of_int m" ..
  have "fl ?x = of_int (round_even (?x / ulp ?x)) * ulp ?x"
    using x by (rule fl_pos_eq)
  also have "\<dots> = of_int m * ulp ?x"
    unfolding m by (simp only: round_even_of_int)
  also have "\<dots> = ?x / ulp ?x * ulp ?x" unfolding m ..
  also have "\<dots> = ?x" using ulp_pos [of ?x] by simp
  finally show ?thesis .
qed

lemma fl_of_int:
  assumes "\<bar>n\<bar> \<le> 2 ^ 53"
  shows "fl (of_int n) = of_int n"
proof -
  consider "0 < n" | "n = 0" | "n < 0" by linarith
  then show ?thesis
  proof cases
    case 1
    with assms show ?thesis by (intro fl_of_int_pos) simp_all
  next
    case 2
    then show ?thesis by (simp add: fl_0)
  next
    case 3
    with assms have "fl (of_int (- n)) = of_int (- n)" by (intro fl_of_int_pos) simp_all
    then show ?thesis by (simp add: fl_minus)
  qed
qed

lemma fl_values:
  "fl 1 = 1" "fl (999 / 1000) < 1" "1 / 1024 \<le> fl (1 / 1000)"
  "fl (9007199254740992 / 1000) \<le> 17592186044416"
  "fl 9223372036854775808 = 9223372036854775808"
  "fl (1 / 17592186044416) = 1 / 17592186044416"
  "fl 158456325028528675187087900672 = 158456325028528675187087900672"
  by code_simp+

section \<open>Properties of the progress statistics\<close>

text \<open>
  The elapsed time in seconds, as the code has it, compared with the elapsed milliseconds.
\<close>

lemma elapsed_sign:
  "fl (of_int d / 1000) = 0 \<longleftrightarrow> d = 0"
  "0 < fl (of_int d / 1000) \<longleftrightarrow> 0 < d"
  "1 \<le> fl (of_int d / 1000) \<longleftrightarrow> 1000 \<le> d"
proof -
  have pos: "0 < fl (of_int d / 1000)" if "0 < d" for d :: int
  proof -
    from that have "(1::rat) / 1000 \<le> of_int d / 1000" by simp
    then have "fl (1 / 1000) \<le> fl (of_int d / 1000)" by (rule fl_mono)
    with fl_values(3) show ?thesis by simp
  qed
  have neg: "fl (of_int d / 1000) < 0" if "d < 0" for d :: int
  proof -
    from that have "0 < fl (of_int (- d) / 1000)" by (intro pos) simp
    moreover have "(of_int (- d) :: rat) / 1000 = - (of_int d / 1000)" by simp
    ultimately have "0 < fl (- (of_int d / 1000))" by (simp only:)
    then show ?thesis unfolding fl_minus by simp
  qed
  consider "d < 0" | "d = 0" | "0 < d" by linarith
  then show "fl (of_int d / 1000) = 0 \<longleftrightarrow> d = 0"
    using pos [of d] neg [of d] by cases (simp_all add: fl_0)
  consider "d < 0" | "d = 0" | "0 < d" by linarith
  then show "0 < fl (of_int d / 1000) \<longleftrightarrow> 0 < d"
    using pos [of d] neg [of d] by cases (simp_all add: fl_0)
  show "1 \<le> fl (of_int d / 1000) \<longleftrightarrow> 1000 \<le> d"
  proof
    assume "1000 \<le> d"
    then have "(1::rat) \<le> of_int d / 1000" by simp
    then have "fl 1 \<le> fl (of_int d / 1000)" by (rule fl_mono)
    then show "1 \<le> fl (of_int d / 1000)" by (simp add: fl_values)
  next
    assume a: "1 \<le> fl (of_int d / 1000)"
    show "1000 \<le> d"
    proof (rule ccontr)
      assume "\<not> 1000 \<le> d"
      then have "d \<le> 999" by simp
      then have "(of_int d :: rat) \<le> 999" by (metis of_int_le_iff of_int_numeral)
      then have "(of_int d :: rat) / 1000 \<le> 999 / 1000" by simp
      then have "fl (of_int d / 1000) \<le> fl (999 / 1000)" by (rule fl_mono)
      with fl_values(2) a show False by simp
    qed
  qed
qed

lemma elapsed_range:
  assumes "0 < d" "d \<le> 2 ^ 53"
  shows "1 / 1024 \<le> fl (of_int d / 1000)" "fl (of_int d / 1000) \<le> 2 ^ 44"
proof -
  from assms(1) have "(1::rat) / 1000 \<le> of_int d / 1000" by simp
  then have "fl (1 / 1000) \<le> fl (of_int d / 1000)" by (rule fl_mono)
  with fl_values(3) show "1 / 1024 \<le> fl (of_int d / 1000)" by simp
  from assms(2) have "(of_int d :: rat) \<le> of_int (2 ^ 53)" by (simp only: of_int_le_iff)
  then have "(of_int d :: rat) / 1000 \<le> 9007199254740992 / 1000" by simp
  then have "fl (of_int d / 1000) \<le> fl (9007199254740992 / 1000)" by (rule fl_mono)
  with fl_values(4) show "fl (of_int d / 1000) \<le> 2 ^ 44" by simp
qed

text \<open>The rate, for a difference of bytes and an elapsed time in the range above.\<close>

lemma rate_range:
  assumes "\<bar>bd\<bar> \<le> 2 ^ 53" and "1 / 1024 \<le> el" and "el \<le> 2 ^ 44"
  shows "\<bar>fl (of_int bd / el)\<bar> \<le> 2 ^ 63"
    and "0 < bd \<Longrightarrow> 1 / 2 ^ 44 \<le> fl (of_int bd / el)"
    and "bd \<le> 0 \<Longrightarrow> fl (of_int bd / el) \<le> 0"
proof -
  from assms(2) have el: "0 < el" by simp
  have b: "\<bar>of_int bd :: rat\<bar> \<le> 2 ^ 53"
    using assms(1) by (metis of_int_abs of_int_le_iff of_int_numeral of_int_power)
  have "\<bar>of_int bd / el\<bar> = \<bar>of_int bd\<bar> / el" using el by simp
  also have "\<dots> \<le> 2 ^ 53 / el" using b el by (simp add: divide_right_mono)
  also have "\<dots> \<le> 2 ^ 53 / (1 / 1024)" using assms(2) by (intro divide_left_mono) simp_all
  also have "\<dots> = 2 ^ 63" by simp
  finally have q: "\<bar>of_int bd / el\<bar> \<le> 2 ^ 63" .
  moreover have "(2::rat) ^ 63 = 9223372036854775808" by simp
  ultimately have "of_int bd / el \<le> 9223372036854775808"
    and "- 9223372036854775808 \<le> of_int bd / el"
    by linarith+
  then have "fl (of_int bd / el) \<le> fl 9223372036854775808"
    and "fl (- 9223372036854775808) \<le> fl (of_int bd / el)"
    by (simp_all only: fl_mono)
  then show "\<bar>fl (of_int bd / el)\<bar> \<le> 2 ^ 63"
    by (simp add: fl_minus fl_values)
  show "1 / 2 ^ 44 \<le> fl (of_int bd / el)" if "0 < bd"
  proof -
    from that have "(1::rat) \<le> of_int bd" by simp
    then have a: "1 / el \<le> of_int bd / el" using el by (simp add: divide_right_mono)
    have "1 / 17592186044416 \<le> 1 / el" using assms(3) el by (intro divide_left_mono) simp_all
    from this a have "1 / 17592186044416 \<le> of_int bd / el" by (rule order_trans)
    then have "fl (1 / 17592186044416) \<le> fl (of_int bd / el)" by (rule fl_mono)
    then show ?thesis by (simp add: fl_values)
  qed
  show "fl (of_int bd / el) \<le> 0" if "bd \<le> 0"
  proof -
    from that el have "of_int bd / el \<le> 0" by (simp add: divide_nonpos_pos)
    then have "fl (of_int bd / el) \<le> fl 0" by (rule fl_mono)
    then show ?thesis by (simp add: fl_0)
  qed
qed

lemma eta_range:
  assumes "\<bar>r\<bar> \<le> 2 ^ 53" and "1 / 2 ^ 44 \<le> rate"
  shows "\<bar>fl (of_int r / rate)\<bar> \<le> 2 ^ 97"
proof -
  from assms(2) have rp: "0 < rate" by (simp add: less_le_trans [of 0 "1 / 2 ^ 44"])
  have b: "\<bar>of_int r :: rat\<bar> \<le> 2 ^ 53"
    using assms(1) by (metis of_int_abs of_int_le_iff of_int_numeral of_int_power)
  have "\<bar>of_int r / rate\<bar> = \<bar>of_int r\<bar> / rate" using rp by simp
  also have "\<dots> \<le> 2 ^ 53 / rate" using b rp by (simp add: divide_right_mono)
  also have "\<dots> \<le> 2 ^ 53 / (1 / 2 ^ 44)" using assms(2) by (intro divide_left_mono) simp_all
  also have "\<dots> = 2 ^ 97" by simp
  finally have "\<bar>of_int r / rate\<bar> \<le> 2 ^ 97" .
  moreover have "(2::rat) ^ 97 = 158456325028528675187087900672" by simp
  ultimately have "of_int r / rate \<le> 158456325028528675187087900672"
    and "- 158456325028528675187087900672 \<le> of_int r / rate"
    by linarith+
  then have "fl (of_int r / rate) \<le> fl 158456325028528675187087900672"
    and "fl (- 158456325028528675187087900672) \<le> fl (of_int r / rate)"
    by (simp_all only: fl_mono)
  then show ?thesis
    by (simp add: fl_minus fl_values)
qed

lemma formatTime_0: "formatTime 0 = MinSec 0 0"
  by (simp add: formatTime_def fl_0)

lemma safe_diff: "safe_count a \<Longrightarrow> safe_count b \<Longrightarrow> \<bar>a - b\<bar> \<le> 2 ^ 53"
  by (auto simp: safe_count_def)

text \<open>The rate of a sample, in bytes per second, and the seconds left at that rate.\<close>

lemma rate_facts:
  assumes "safe_count now" "safe_count (lastTimeRef p)" "safe_count P" "safe_count (lastBytesRef p)"
  shows "timeDiff_of now p = fl (of_int (now - lastTimeRef p) / 1000)"
    and "speedBytesPerSec_of now p P =
           (if lastTimeRef p < now
            then fl (of_int (P - lastBytesRef p) / fl (of_int (now - lastTimeRef p) / 1000)) else 0)"
    and "\<bar>speedBytesPerSec_of now p P\<bar> \<le> 2 ^ 63"
    and "0 < speedBytesPerSec_of now p P \<longleftrightarrow> lastTimeRef p < now \<and> lastBytesRef p < P"
    and "0 < speedBytesPerSec_of now p P \<Longrightarrow> 1 / 2 ^ 44 \<le> speedBytesPerSec_of now p P"
proof -
  let ?d = "now - lastTimeRef p" and ?bd = "P - lastBytesRef p"
  let ?el = "fl (of_int ?d / 1000)"
  have d: "\<bar>?d\<bar> \<le> 2 ^ 53" and bd: "\<bar>?bd\<bar> \<le> 2 ^ 53"
    using assms by (simp_all only: safe_diff)
  show t: "timeDiff_of now p = ?el"
    unfolding timeDiff_of_def fl_of_int [OF d] ..
  show s: "speedBytesPerSec_of now p P = (if lastTimeRef p < now then fl (of_int ?bd / ?el) else 0)"
    unfolding speedBytesPerSec_of_def t fl_of_int [OF bd] Let_def
    using elapsed_sign(2) [of ?d] by simp
  show "\<bar>speedBytesPerSec_of now p P\<bar> \<le> 2 ^ 63"
  proof (cases "lastTimeRef p < now")
    case True
    with d have "0 < ?d" "?d \<le> 2 ^ 53" by simp_all
    from rate_range(1) [OF bd elapsed_range [OF this]] True show ?thesis
      unfolding s by simp
  next
    case False
    then show ?thesis unfolding s by simp
  qed
  show "0 < speedBytesPerSec_of now p P \<longleftrightarrow> lastTimeRef p < now \<and> lastBytesRef p < P"
  proof (cases "lastTimeRef p < now")
    case True
    with d have r: "0 < ?d" "?d \<le> 2 ^ 53" by simp_all
    note rr = rate_range(2,3) [OF bd elapsed_range [OF r]]
    show ?thesis
    proof (cases "lastBytesRef p < P")
      case True
      then have "1 / 2 ^ 44 \<le> fl (of_int ?bd / ?el)" by (intro rr(1)) simp
      then have "0 < fl (of_int ?bd / ?el)" by (rule less_le_trans [rotated]) simp
      with True \<open>lastTimeRef p < now\<close> show ?thesis unfolding s by simp
    next
      case False
      then have "fl (of_int ?bd / ?el) \<le> 0" by (intro rr(2)) simp
      with False \<open>lastTimeRef p < now\<close> show ?thesis unfolding s by simp
    qed
  next
    case False
    then show ?thesis unfolding s by simp
  qed
  then show "1 / 2 ^ 44 \<le> speedBytesPerSec_of now p P" if "0 < speedBytesPerSec_of now p P"
  proof -
    from that \<open>0 < speedBytesPerSec_of now p P \<longleftrightarrow> lastTimeRef p < now \<and> lastBytesRef p < P\<close>
    have l: "lastTimeRef p < now" "lastBytesRef p < P" by simp_all
    with d have r: "0 < ?d" "?d \<le> 2 ^ 53" by simp_all
    from l(2) have "0 < ?bd" by simp
    from rate_range(2) [OF bd elapsed_range [OF r] this] l(1) show ?thesis
      unfolding s by simp
  qed
qed

text \<open>
  Claim C9, as stated, fails in one part: the ETA is not reported as unknown when the rate is
  zero or the transfer is complete. With rate zero \<^verbatim>\<open>etaSeconds\<close> is set to 0 by the guard
  \<^verbatim>\<open>speedBytesPerSec > 0 ? ... : 0\<close>, and on completion it is 0 divided by the rate; in both
  cases \<^verbatim>\<open>formatTime\<close> gives \<^verbatim>\<open>0m 0s\<close>, not \<^verbatim>\<open>--:--\<close>. Here: no byte since the last sample
  two seconds ago (rate zero), and a sample that completes the transfer.
\<close>

theorem eta_unknown_counterexample:
  "speedBytesPerSec_of 2000 sample_progress 500 = 0 \<and>
   eta (stats (updateStats 2000 sample_progress 1000 500 ''a.txt'' 1 0)) = MinSec 0 0 \<and>
   eta (stats (updateStats 2000 sample_progress 1000 1000 ''a.txt'' 1 1)) = MinSec 0 0"
  by code_simp

text \<open>
  Claim C9, amended. For every progress update whose byte counts and timestamps are
  non-negative integers up to \<open>2 ^ 53\<close>, with \<open>T\<close> the total and \<open>P\<close> the processed bytes: if
  no time has passed since the last sample, the sample is dropped (nothing changes); if at
  least one second has passed, or the transfer is complete and the time differs, the last
  sample becomes (now, P), the rate is (P - lastBytes) / elapsed with the elapsed seconds and
  the quotient each rounded to a double (and 0 when the clock went back), the speed shown is
  the rate in MB/s with one decimal, and the ETA shown is (T - P) / rate, rounded, as minutes
  and seconds when bytes have been processed since the last sample and \<^verbatim>\<open>0m 0s\<close> when none
  have; on completion it is \<^verbatim>\<open>0m 0s\<close>; the rate is at most \<open>2 ^ 63\<close> and the seconds left at
  most \<open>2 ^ 97\<close> in magnitude, so neither is infinite; otherwise (less than a second, not
  complete) only the processed counts and the current file name change, and rate, ETA,
  totals and the last sample stay.
\<close>

theorem updateStats_cases:
  assumes "safe_count now" "safe_count (lastTimeRef p)" "safe_count T" "safe_count P"
    and "safe_count (lastBytesRef p)"
  shows "(now = lastTimeRef p \<longrightarrow> updateStats now p T P f n d = p)
   \<and> ((1000 \<le> now - lastTimeRef p \<or> P = T) \<and> now \<noteq> lastTimeRef p \<longrightarrow>
        (let elapsed = fl (of_int (now - lastTimeRef p) / 1000);
             rate = (if lastTimeRef p < now then fl (of_int (P - lastBytesRef p) / elapsed) else 0);
             left = fl (of_int (T - P) / rate)
         in updateStats now p T P f n d =
              p\<lparr>stats := \<lparr>totalFiles = n, processedFiles = d, totalBytes = T, processedBytes = P,
                           speed = toFixed1 (fl (fl (rate / 1024) / 1024)) @ '' MB/s'',
                           eta = (if lastTimeRef p < now \<and> lastBytesRef p < P then formatTime left
                                  else MinSec 0 0),
                           currentFile = f\<rparr>,
                lastTimeRef := now, lastBytesRef := P\<rparr>
            \<and> (P = T \<longrightarrow> eta (stats (updateStats now p T P f n d)) = MinSec 0 0)
            \<and> \<bar>rate\<bar> \<le> 2 ^ 63
            \<and> (0 < rate \<longleftrightarrow> lastTimeRef p < now \<and> lastBytesRef p < P)
            \<and> (0 < rate \<longrightarrow> \<bar>left\<bar> \<le> 2 ^ 97)))
   \<and> (now \<noteq> lastTimeRef p \<and> now - lastTimeRef p < 1000 \<and> P \<noteq> T \<longrightarrow>
        updateStats now p T P f n d =
          p\<lparr>stats := (stats p)\<lparr>processedFiles := d, processedBytes := P, currentFile := f\<rparr>\<rparr>)"
proof (intro conjI impI)
  note rf = rate_facts [OF assms(1,2,4,5)]
  have r: "\<bar>T - P\<bar> \<le> 2 ^ 53" using assms(3,4) by (rule safe_diff)
  let ?el = "fl (of_int (now - lastTimeRef p) / 1000)"
  let ?rate = "if lastTimeRef p < now then fl (of_int (P - lastBytesRef p) / ?el) else 0"
  let ?left = "fl (of_int (T - P) / ?rate)"
  {
    assume "now = lastTimeRef p"
    then show "updateStats now p T P f n d = p"
      unfolding updateStats_def rf(1) Let_def by (simp add: fl_0)
  }
  {
    assume a: "(1000 \<le> now - lastTimeRef p \<or> P = T) \<and> now \<noteq> lastTimeRef p"
    then have z: "timeDiff_of now p \<noteq> 0" and q: "1 \<le> timeDiff_of now p \<or> P = T"
      unfolding rf(1) using elapsed_sign [of "now - lastTimeRef p"] by auto
    have sp: "speedBytesPerSec_of now p P = ?rate" by (rule rf(2))
    have pos: "0 < ?rate \<longleftrightarrow> lastTimeRef p < now \<and> lastBytesRef p < P"
      using rf(4) unfolding sp .
    have bound: "\<bar>?rate\<bar> \<le> 2 ^ 63" using rf(3) unfolding sp .
    have low: "1 / 2 ^ 44 \<le> ?rate" if "0 < ?rate" using rf(5) that unfolding sp .
    have e: "formatTime (etaSeconds_of ?rate T P)
        = (if lastTimeRef p < now \<and> lastBytesRef p < P then formatTime ?left else MinSec 0 0)"
      unfolding etaSeconds_of_def Let_def fl_of_int [OF r] using pos
      by (simp add: formatTime_0)
    have u: "updateStats now p T P f n d =
              p\<lparr>stats := \<lparr>totalFiles = n, processedFiles = d, totalBytes = T, processedBytes = P,
                           speed = toFixed1 (fl (fl (?rate / 1024) / 1024)) @ '' MB/s'',
                           eta = (if lastTimeRef p < now \<and> lastBytesRef p < P then formatTime ?left
                                  else MinSec 0 0),
                           currentFile = f\<rparr>,
                lastTimeRef := now, lastBytesRef := P\<rparr>"
      using z q unfolding updateStats_def Let_def sp e speedMB_of_def by auto
    have c: "eta (stats (updateStats now p T P f n d)) = MinSec 0 0" if "P = T"
      unfolding u using that by (simp add: fl_0 formatTime_0)
    have l: "\<bar>?left\<bar> \<le> 2 ^ 97" if "0 < ?rate"
      using r low [OF that] by (rule eta_range)
    show "let elapsed = fl (of_int (now - lastTimeRef p) / 1000);
             rate = (if lastTimeRef p < now then fl (of_int (P - lastBytesRef p) / elapsed) else 0);
             left = fl (of_int (T - P) / rate)
         in updateStats now p T P f n d =
              p\<lparr>stats := \<lparr>totalFiles = n, processedFiles = d, totalBytes = T, processedBytes = P,
                           speed = toFixed1 (fl (fl (rate / 1024) / 1024)) @ '' MB/s'',
                           eta = (if lastTimeRef p < now \<and> lastBytesRef p < P then formatTime left
                                  else MinSec 0 0),
                           currentFile = f\<rparr>,
                lastTimeRef := now, lastBytesRef := P\<rparr>
            \<and> (P = T \<longrightarrow> eta (stats (updateStats now p T P f n d)) = MinSec 0 0)
            \<and> \<bar>rate\<bar> \<le> 2 ^ 63
            \<and> (0 < rate \<longleftrightarrow> lastTimeRef p < now \<and> lastBytesRef p < P)
            \<and> (0 < rate \<longrightarrow> \<bar>left\<bar> \<le> 2 ^ 97)"
      unfolding Let_def using u c bound pos l by blast
  }
  {
    assume a: "now \<noteq> lastTimeRef p \<and> now - lastTimeRef p < 1000 \<and> P \<noteq> T"
    then have "timeDiff_of now p \<noteq> 0" "\<not> 1 \<le> timeDiff_of now p"
      unfolding rf(1) using elapsed_sign [of "now - lastTimeRef p"] by auto
    with a show "updateStats now p T P f n d =
          p\<lparr>stats := (stats p)\<lparr>processedFiles := d, processedBytes := P, currentFile := f\<rparr>\<rparr>"
      by (simp add: updateStats_def Let_def)
  }
qed

lemma safe_samples:
  "safe_count 0" "safe_count 400" "safe_count 500" "safe_count 517" "safe_count 700"
  "safe_count 1000" "safe_count 1020" "safe_count 1250" "safe_count 1517" "safe_count 197108"
  "safe_count 1000000"
  by (simp_all add: safe_count_def)

lemma sample_progress_last:
  "lastTimeRef sample_progress = 0" "lastBytesRef sample_progress = 500"
  by (simp_all add: sample_progress_def)

lemma sample_values:
  "toFixed1 (fl (fl (fl (17 / fl (51 / 50)) / 1024) / 1024)) = ''0.0''"
  "formatTime (fl (1000 / fl (17 / fl (51 / 50)))) = MinSec 0 59"
  "toFixed1 (fl (fl (fl (196608 / fl (5 / 4)) / 1024) / 1024)) = ''0.1''"
  "formatTime (fl (802892 / fl (196608 / fl (5 / 4)))) = MinSec 0 5"
  "toFixed1 (fl (fl (fl (500 / fl (2 / 5)) / 1024) / 1024)) = ''0.0''"
  by code_simp+

theorem updateStats_cases_witness:
  "safe_count 1020 \<and> safe_count (lastTimeRef sample_progress) \<and> safe_count 1517 \<and>
   safe_count 517 \<and> safe_count (lastBytesRef sample_progress) \<and>
   updateStats 0 sample_progress 1000 700 ''b.txt'' 1 0 = sample_progress \<and>
   updateStats 1020 sample_progress 1517 517 ''b.txt'' 2 1 =
     \<lparr>stats = \<lparr>totalFiles = 2, processedFiles = 1, totalBytes = 1517, processedBytes = 517,
                speed = ''0.0 MB/s'', eta = MinSec 0 59, currentFile = ''b.txt''\<rparr>,
      lastBytesRef = 517, lastTimeRef = 1020\<rparr> \<and>
   updateStats 1250 sample_progress 1000000 197108 ''b.txt'' 2 1 =
     \<lparr>stats = \<lparr>totalFiles = 2, processedFiles = 1, totalBytes = 1000000, processedBytes = 197108,
                speed = ''0.1 MB/s'', eta = MinSec 0 5, currentFile = ''b.txt''\<rparr>,
      lastBytesRef = 197108, lastTimeRef = 1250\<rparr> \<and>
   updateStats 400 sample_progress 1000 1000 ''b.txt'' 2 1 =
     \<lparr>stats = \<lparr>totalFiles = 2, processedFiles = 1, totalBytes = 1000, processedBytes = 1000,
                speed = ''0.0 MB/s'', eta = MinSec 0 0, currentFile = ''b.txt''\<rparr>,
      lastBytesRef = 1000, lastTimeRef = 400\<rparr> \<and>
   updateStats 400 sample_progress 1000 700 ''b.txt'' 2 1 =
     \<lparr>stats = \<lparr>totalFiles = 1, processedFiles = 1, totalBytes = 1000, processedBytes = 700,
                speed = ''0 MB/s'', eta = Dashes, currentFile = ''b.txt''\<rparr>,
      lastBytesRef = 500, lastTimeRef = 0\<rparr>"
proof -
  from updateStats_cases [of 0 sample_progress 1000 700 "''b.txt''" 1 0]
       updateStats_cases [of 1020 sample_progress 1517 517 "''b.txt''" 2 1]
       updateStats_cases [of 1250 sample_progress 1000000 197108 "''b.txt''" 2 1]
       updateStats_cases [of 400 sample_progress 1000 1000 "''b.txt''" 2 1]
       updateStats_cases [of 400 sample_progress 1000 700 "''b.txt''" 2 1]
  show ?thesis
    by (simp add: safe_samples sample_progress_last sample_values fl_0 formatTime_0 Let_def)
       (simp add: sample_progress_def)
qed

section \<open>Properties of the JSON text functions\<close>

lemma map_option_append_Nil: "map_option ((@) []) x = x"
  by (cases x) simp_all

lemma hex_value_hex_digit_all:
  "list_all (\<lambda>k. hex_value (hex_digit k) = Some k) [0..<16]"
  by code_simp

lemma hex_value_hex_digit: "k < 16 \<Longrightarrow> hex_value (hex_digit k) = Some k"
  using hex_value_hex_digit_all by (simp add: list_all_iff)

lemma lex_from_unicode_escape:
  assumes "n < 32"
  shows "lex_from (LStr acc)
           ([CHR 0x5C, CHR ''u'', CHR ''0'', CHR ''0'', hex_digit (n div 16), hex_digit (n mod 16)] @ rest)
         = lex_from (LStr (acc @ [char_of n])) rest"
proof -
  have z: "hex_value CHR ''0'' = Some 0"
    by (simp add: hex_value_def is_digit_def)
  have a: "hex_value (hex_digit (n div 16)) = Some (n div 16)"
    using assms by (intro hex_value_hex_digit) simp
  have b: "hex_value (hex_digit (n mod 16)) = Some (n mod 16)"
    by (intro hex_value_hex_digit) simp
  have u: "utf8 n = [char_of n]"
    using assms by (simp add: utf8_def)
  show ?thesis
    by (simp add: z a b u map_option_append_Nil)
qed

lemma lex_from_escape_char:
  "lex_from (LStr acc) (escape_char c @ rest) = lex_from (LStr (acc @ [c])) rest"
proof -
  consider (special) "c \<in> {CHR 0x22, CHR 0x5C, CHR 0x08, CHR 0x09, CHR 0x0A, CHR 0x0C, CHR 0x0D}"
    | (control) "c \<notin> {CHR 0x22, CHR 0x5C, CHR 0x08, CHR 0x09, CHR 0x0A, CHR 0x0C, CHR 0x0D}"
        "of_char c < (32::nat)"
    | (raw) "c \<notin> {CHR 0x22, CHR 0x5C, CHR 0x08, CHR 0x09, CHR 0x0A, CHR 0x0C, CHR 0x0D}"
        "\<not> of_char c < (32::nat)"
    by blast
  then show ?thesis
  proof cases
    case special
    then show ?thesis
      by (elim insertE emptyE)
         (simp_all add: escape_char_def unescape_def map_option_append_Nil)
  next
    case control
    from control(2) have "lex_from (LStr acc)
           ([CHR 0x5C, CHR ''u'', CHR ''0'', CHR ''0'', hex_digit (of_char c div 16),
             hex_digit (of_char c mod 16)] @ rest)
         = lex_from (LStr (acc @ [char_of (of_char c :: nat)])) rest"
      by (rule lex_from_unicode_escape)
    with control show ?thesis
      by (simp add: escape_char_def)
  next
    case raw
    then show ?thesis
      by (simp add: escape_char_def map_option_append_Nil)
  qed
qed

lemma lex_from_escaped:
  "lex_from (LStr acc) (concat (map escape_char s) @ rest) = lex_from (LStr (acc @ s)) rest"
proof (induction s arbitrary: acc)
  case Nil
  show ?case by simp
next
  case (Cons c s)
  have "lex_from (LStr acc) (concat (map escape_char (c # s)) @ rest)
      = lex_from (LStr acc) (escape_char c @ (concat (map escape_char s) @ rest))"
    by simp
  also have "\<dots> = lex_from (LStr (acc @ [c])) (concat (map escape_char s) @ rest)"
    by (rule lex_from_escape_char)
  also have "\<dots> = lex_from (LStr ((acc @ [c]) @ s)) rest"
    by (rule Cons.IH)
  finally show ?case by simp
qed

text \<open>A quoted string, read from the start state, is one string token.\<close>

lemma lex_from_quote:
  "lex_from LStart (quote s @ rest) = map_option (\<lambda>r. TStr s # r) (lex_from LStart rest)"
proof -
  have "lex_from LStart (quote s @ rest)
      = lex_from (LStr []) (concat (map escape_char s) @ (CHR 0x22 # rest))"
    by (simp add: quote_def start_step_def is_ws_def map_option_append_Nil)
  also have "\<dots> = lex_from (LStr ([] @ s)) (CHR 0x22 # rest)"
    by (rule lex_from_escaped)
  also have "\<dots> = map_option (\<lambda>r. TStr s # r) (lex_from LStart rest)"
    by (cases "lex_from LStart rest") simp_all
  finally show ?thesis .
qed

lemma digit_facts_all:
  "list_all (\<lambda>k. is_digit (hex_digit k) \<and> (hex_digit k = CHR ''0'' \<longrightarrow> k = 0)) [0..<10]"
  by code_simp

lemma is_digit_hex_digit: "k < 10 \<Longrightarrow> is_digit (hex_digit k)"
  using digit_facts_all by (simp add: list_all_iff)

lemma hex_digit_zero: "k < 10 \<Longrightarrow> hex_digit k = CHR ''0'' \<Longrightarrow> k = 0"
  using digit_facts_all by (simp add: list_all_iff)

lemma decimal_shape:
  "\<exists>d ds. decimal n = d # ds \<and> is_digit d \<and> list_all is_digit ds \<and> (d = CHR ''0'' \<longrightarrow> n = 0 \<and> ds = [])"
proof (induction n rule: decimal.induct)
  case (1 n)
  show ?case
  proof (cases "n < 10")
    case True
    then have "decimal n = [hex_digit n]" by (simp add: decimal.simps)
    with True show ?thesis
      by (auto simp: is_digit_hex_digit dest: hex_digit_zero)
  next
    case False
    with 1 obtain d ds where ih: "decimal (n div 10) = d # ds" "is_digit d" "list_all is_digit ds"
      "d = CHR ''0'' \<longrightarrow> n div 10 = 0 \<and> ds = []"
      by blast
    from False have nz: "n div 10 \<noteq> 0" by simp
    from False have "decimal n = d # (ds @ [hex_digit (n mod 10)])"
      using ih(1) by (subst decimal.simps) simp
    moreover have "is_digit (hex_digit (n mod 10))"
      by (rule is_digit_hex_digit) simp
    ultimately show ?thesis
      using ih nz by auto
  qed
qed

lemma dropWhile_all: "list_all P xs \<Longrightarrow> dropWhile P xs = []"
  by (induction xs) auto

lemma is_digit_not_minus: "is_digit d \<Longrightarrow> d \<noteq> CHR ''-''"
  by (auto simp: is_digit_def)

lemma valid_number_decimal: "valid_number (decimal n)"
proof -
  obtain d ds where s: "decimal n = d # ds" "is_digit d" "list_all is_digit ds"
    "d = CHR ''0'' \<longrightarrow> n = 0 \<and> ds = []"
    using decimal_shape by blast
  then show ?thesis
    by (auto simp: valid_number_def valid_frac_def valid_exp_def dropWhile_all
        dest: is_digit_not_minus)
qed

lemma lex_from_LNum_run:
  "list_all is_numchar ds \<Longrightarrow> lex_from (LNum acc) (ds @ rest) = lex_from (LNum (acc @ ds)) rest"
proof (induction ds arbitrary: acc)
  case Nil
  show ?case by simp
next
  case (Cons d ds)
  then show ?case by (simp add: map_option_append_Nil)
qed

lemma start_step_digit: "is_digit d \<Longrightarrow> start_step d = Some ([], LNum [d])"
  by (auto simp: start_step_def is_digit_def is_ws_def)

text \<open>
  A decimal numeral followed by a comma, read from the start state, is one number token and
  the comma.
\<close>

lemma lex_from_decimal_comma:
  "lex_from LStart (decimal n @ CHR '','' # rest)
   = map_option (\<lambda>r. TNum (decimal n) # TComma # r) (lex_from LStart rest)"
proof -
  obtain d ds where s: "decimal n = d # ds" "is_digit d" "list_all is_digit ds"
    using decimal_shape by blast
  from s(3) have nc: "list_all is_numchar ds"
    by (simp add: list_all_iff is_numchar_def)
  have "lex_from LStart (decimal n @ CHR '','' # rest)
      = lex_from (LNum [d]) (ds @ CHR '','' # rest)"
    using s by (simp add: start_step_digit map_option_append_Nil)
  also have "\<dots> = lex_from (LNum ([d] @ ds)) (CHR '','' # rest)"
    using nc by (rule lex_from_LNum_run)
  also have "\<dots> = map_option (\<lambda>r. TNum (decimal n) # TComma # r) (lex_from LStart rest)"
    using valid_number_decimal [of n] s(1)
    by (cases "lex_from LStart rest")
       (simp_all add: is_numchar_def is_digit_def close_with_def number_token_def
          start_step_def is_ws_def)
  finally show ?thesis .
qed

text \<open>The message the sender writes as header of a file is read back as it was.\<close>

lemma lex_from_punct:
  "lex_from LStart (CHR ''{'' # rest) = map_option (\<lambda>r. TLBrace # r) (lex_from LStart rest)"
  "lex_from LStart (CHR ''}'' # rest) = map_option (\<lambda>r. TRBrace # r) (lex_from LStart rest)"
  "lex_from LStart (CHR '':'' # rest) = map_option (\<lambda>r. TColon # r) (lex_from LStart rest)"
  "lex_from LStart (CHR '','' # rest) = map_option (\<lambda>r. TComma # r) (lex_from LStart rest)"
  by (cases "lex_from LStart rest"; simp add: start_step_def is_ws_def)+

lemma JSON_stringify_header:
  "JSON_stringify (JObj [(''type'', JStr ''file-header''), (''name'', JStr n),
       (''size'', JNum (decimal k)), (''path'', JStr p)])
   = CHR ''{'' # quote ''type'' @ CHR '':'' # quote ''file-header'' @ CHR '','' #
       quote ''name'' @ CHR '':'' # quote n @ CHR '','' #
       quote ''size'' @ CHR '':'' # decimal k @ CHR '','' #
       quote ''path'' @ CHR '':'' # quote p @ ''}''"
  by simp

lemma JSON_parse_header:
  "JSON_parse (JSON_stringify (JObj [(''type'', JStr ''file-header''), (''name'', JStr n),
       (''size'', JNum (decimal k)), (''path'', JStr p)]))
   = Some (JObj [(''type'', JStr ''file-header''), (''name'', JStr n),
       (''size'', JNum (decimal k)), (''path'', JStr p)])"
proof -
  have "lex_from LStart (JSON_stringify (JObj [(''type'', JStr ''file-header''), (''name'', JStr n),
       (''size'', JNum (decimal k)), (''path'', JStr p)]))
     = Some [TLBrace, TStr ''type'', TColon, TStr ''file-header'', TComma,
             TStr ''name'', TColon, TStr n, TComma,
             TStr ''size'', TColon, TNum (decimal k), TComma,
             TStr ''path'', TColon, TStr p, TRBrace]"
    unfolding JSON_stringify_header
    by (simp only: lex_from_punct lex_from_quote lex_from_decimal_comma lex_from.simps(1)
        lex_end.simps option.map list.simps)
  then show ?thesis
    by (simp add: JSON_parse_def value_start_def)
qed

section \<open>Properties of the receiver\<close>

text \<open>
  Claim C10. A frame that is not a control message (\<^verbatim>\<open>isControl\<close> stays false) and arrives while
  no file is open (\<^verbatim>\<open>currentFileMeta\<close> is null: no header yet, or the last file has been ended)
  is discarded: the state, and with it the sink, the accumulated chunks and the byte counter,
  is unchanged and nothing is done.
\<close>

theorem data_without_open_file_discarded:
  "currentFileMeta st = None \<Longrightarrow> control_message data = None \<Longrightarrow> onData b st data = (st, [])"
  by (simp add: onData_def on_binary_def)

lemma after_file_a:
  "fst (receive blob_browser initial_receiver [Frame (file_header file_a), Frame ''abc'', Frame file_end])
   = \<lparr>currentFileMeta = None, writable = None, chunks = [], receivedBytes = 3, pending = []\<rparr>"
  by code_simp

lemma control_message_abc: "control_message ''abc'' = None"
  by code_simp

theorem data_without_open_file_discarded_witness:
  "currentFileMeta initial_receiver = None \<and> control_message ''abc'' = None \<and>
   onData blob_browser initial_receiver ''abc'' = (initial_receiver, []) \<and>
   onData stream_browser
     (fst (receive blob_browser initial_receiver
             [Frame (file_header file_a), Frame ''abc'', Frame file_end])) ''abc''
   = (\<lparr>currentFileMeta = None, writable = None, chunks = [], receivedBytes = 3, pending = []\<rparr>, [])"
proof -
  have h1: "currentFileMeta initial_receiver = None"
    by (simp add: initial_receiver_def)
  have h2: "currentFileMeta (fst (receive blob_browser initial_receiver
      [Frame (file_header file_a), Frame ''abc'', Frame file_end])) = None"
    unfolding after_file_a by simp
  from data_without_open_file_discarded [OF h1 control_message_abc]
       data_without_open_file_discarded [OF h2 control_message_abc]
  show ?thesis
    unfolding after_file_a by (simp add: h1 control_message_abc)
qed

text \<open>
  Claim C6, as stated, fails. The handler has no check for a header that arrives while a file
  is open. Here the header of a second file arrives after the header and three bytes of a
  first one: the first file's metadata, its chunk and the count are overwritten, and the
  only thing done is the usual console line for the new file.
\<close>

theorem overlapping_header_counterexample:
  "receive blob_browser initial_receiver [Frame (file_header file_a), Frame ''abc'']
     = (\<lparr>currentFileMeta = Some (header_object file_a), writable = None, chunks = [''abc''],
         receivedBytes = 3, pending = []\<rparr>,
        [LogReceiving (Some (JStr ''a.txt''))]) \<and>
   onData blob_browser
     \<lparr>currentFileMeta = Some (header_object file_a), writable = None, chunks = [''abc''],
      receivedBytes = 3, pending = []\<rparr>
     (file_header file_b)
     = (\<lparr>currentFileMeta = Some (header_object file_b), writable = None, chunks = [],
         receivedBytes = 0, pending = []\<rparr>,
        [LogReceiving (Some (JStr ''b.txt''))])"
  by code_simp

text \<open>
  Claim C6, amended. Every header frame, whether a file is open or not, is handled in the same
  way: its message becomes the current file and the byte counter is reset; where a stream
  writer can be made, a new writer replaces the one in use (which is not closed), otherwise the
  accumulated chunks are emptied. Nothing is saved of the file that was open, and the only
  output is the console line \<^verbatim>\<open>Receiving\<close> (and the line about the fallback): no rejection. The
  call runs to its end at once.
\<close>

theorem header_replaces_open_file:
  assumes "control_message data = Some msg" and "get_prop msg ''type'' = Some (JStr ''file-header'')"
  shows "currentFileMeta (fst (onData b st data)) = Some msg
       \<and> receivedBytes (fst (onData b st data)) = 0
       \<and> files_saved (snd (onData b st data)) = []
       \<and> Unhandled TypeError \<notin> set (snd (onData b st data))
       \<and> hd (snd (onData b st data)) = LogReceiving (get_prop msg ''name'')
       \<and> pending (fst (onData b st data)) = pending st
       \<and> (if \<not> isIOS b \<and> streamSaver_supported b \<and> \<not> createWriteStream_throws b
           then writable (fst (onData b st data))
                  = Some \<lparr>w_name = get_prop msg ''name'', w_size = get_prop msg ''size'',
                          w_chunks = [], w_state = Writable\<rparr>
                \<and> snd (onData b st data) = [LogReceiving (get_prop msg ''name'')]
           else chunks (fst (onData b st data)) = []
                \<and> writable (fst (onData b st data)) = writable st)"
  using assms
  by (simp add: onData_def on_header_def Let_def files_saved_def)

lemma control_message_header_b: "control_message (file_header file_b) = Some (header_object file_b)"
  by code_simp

theorem header_replaces_open_file_witness:
  "control_message (file_header file_b) = Some (header_object file_b) \<and>
   get_prop (header_object file_b) ''type'' = Some (JStr ''file-header'') \<and>
   currentFileMeta (fst (onData stream_browser
     \<lparr>currentFileMeta = Some (header_object file_a), writable = None, chunks = [''abc''],
      receivedBytes = 3, pending = []\<rparr> (file_header file_b))) = Some (header_object file_b) \<and>
   receivedBytes (fst (onData stream_browser
     \<lparr>currentFileMeta = Some (header_object file_a), writable = None, chunks = [''abc''],
      receivedBytes = 3, pending = []\<rparr> (file_header file_b))) = 0 \<and>
   snd (onData stream_browser
     \<lparr>currentFileMeta = Some (header_object file_a), writable = None, chunks = [''abc''],
      receivedBytes = 3, pending = []\<rparr> (file_header file_b)) = [LogReceiving (Some (JStr ''b.txt''))]"
proof -
  have t: "get_prop (header_object file_b) ''type'' = Some (JStr ''file-header'')"
    by code_simp
  have n: "get_prop (header_object file_b) ''name'' = Some (JStr ''b.txt'')"
    by code_simp
  have s: "\<not> isIOS stream_browser \<and> streamSaver_supported stream_browser \<and> \<not> createWriteStream_throws stream_browser"
    by (simp add: stream_browser_def)
  from header_replaces_open_file [OF control_message_header_b t, of stream_browser
      "\<lparr>currentFileMeta = Some (header_object file_a), writable = None, chunks = [''abc''],
      receivedBytes = 3, pending = []\<rparr>"] s
  show ?thesis
    by (simp add: control_message_header_b t n)
qed

text \<open>
  Claim C5, as stated, fails in its second half: \<^verbatim>\<open>receivedBytes\<close> is counted but never compared
  with the size of the header. Here the header declares 10 bytes and 3 arrive before the end
  marker: the 3 bytes are saved under the file's name and announced like any received file.
\<close>

theorem size_mismatch_counterexample:
  "get_prop (header_object file_ten) ''size'' = Some (JNum ''10'') \<and>
   receive blob_browser initial_receiver
     [Frame (file_header file_ten), Frame ''abc'', Frame file_end]
     = (\<lparr>currentFileMeta = None, writable = None, chunks = [], receivedBytes = 3, pending = []\<rparr>,
        [LogReceiving (Some (JStr ''t.bin'')), LogFileReceived (Some (JStr ''t.bin'')),
         BlobDownload (Some (JStr ''t.bin'')) ''abc'', ToastReceived (Some (JStr ''t.bin''))])"
  by code_simp

text \<open>
  Suspended writes that succeed, going on in the order in which they were suspended, add
  their bytes to the count and do nothing else.
\<close>

lemma receive_append:
  "receive b st (xs @ ys) =
     (case receive b st xs of (st1, ev1) \<Rightarrow>
        case receive b st1 ys of (st2, ev2) \<Rightarrow> (st2, ev1 @ ev2))"
  by (induction xs arbitrary: st) (auto split: prod.splits)

lemma settle_writes:
  assumes "pending st = ps @ qs" and "\<forall>c\<in>set ps. \<exists>n. c = AfterWrite False n"
  shows "receive b st (replicate (length ps) (Settled 0))
       = (st\<lparr>pending := qs, receivedBytes := receivedBytes st + sum_list (map written ps)\<rparr>, [])"
  using assms
proof (induction ps arbitrary: st)
  case Nil
  then show ?case by simp
next
  case (Cons c ps)
  then obtain n where c: "c = AfterWrite False n" by auto
  let ?st1 = "st\<lparr>pending := ps @ qs, receivedBytes := receivedBytes st + n\<rparr>"
  from Cons.prems(1) have s: "settle st 0 = (?st1, [])"
    by (simp add: settle_def c)
  have "receive b ?st1 (replicate (length ps) (Settled 0))
      = (?st1\<lparr>pending := qs, receivedBytes := receivedBytes ?st1 + sum_list (map written ps)\<rparr>, [])"
    using Cons.prems(2) by (intro Cons.IH) simp_all
  with s show ?case
    by (simp add: c add.assoc)
qed

text \<open>
  Claim C5, amended. For every end marker received while a file is open, the file is
  materialised from what has been received, whatever the byte count. Without a stream writer
  the call downloads the Blob of the accumulated chunks under the file's name, empties them,
  announces the file as received and clears the current file. With a writer that is open (and
  whose close does not fail) the call closes it, which completes the download with the chunks
  written so far, and waits for the close; when the writes still under way and then the close
  have completed before anything else is handled, the bytes of those writes have been
  counted, the file is announced as received and writer and current file are cleared. The
  received byte count plays no part: with any other value of the counter the outcome is the
  same, so a mismatch with the declared size is not reported.
\<close>

theorem end_marker_materialises:
  assumes "control_message data = Some msg" and "get_prop msg ''type'' = Some (JStr ''file-end'')"
    and "currentFileMeta st = Some meta"
  shows "(case writable st of
            Some w \<Rightarrow>
              w_state w = Writable \<and> \<not> close_rejects b \<longrightarrow>
              onData b st data =
                (st\<lparr>writable := Some (w\<lparr>w_state := Closing\<rparr>),
                    pending := pending st @ [AfterClose False]\<rparr>,
                 [LogFileReceived (get_prop meta ''name''), StreamClosed w])
              \<and> ((\<forall>c\<in>set (pending st). \<exists>n. c = AfterWrite False n) \<longrightarrow>
                 receive b st (Frame data # replicate (Suc (length (pending st))) (Settled 0)) =
                   (st\<lparr>writable := None, currentFileMeta := None, pending := [],
                       receivedBytes := receivedBytes st + sum_list (map written (pending st))\<rparr>,
                    [LogFileReceived (get_prop meta ''name''), StreamClosed w,
                     ToastReceived (get_prop meta ''name'')]))
          | None \<Rightarrow>
              onData b st data =
                (st\<lparr>chunks := [], currentFileMeta := None\<rparr>,
                 [LogFileReceived (get_prop meta ''name''),
                  BlobDownload (get_prop meta ''name'') (concat (chunks st)),
                  ToastReceived (get_prop meta ''name'')]))
       \<and> onData b (st\<lparr>receivedBytes := k\<rparr>) data
           = ((fst (onData b st data))\<lparr>receivedBytes := k\<rparr>, snd (onData b st data))"
proof -
  have e: "onData b s data = on_end b s" for s
    using assms(1,2) by (simp add: onData_def)
  have indep: "onData b (st\<lparr>receivedBytes := k\<rparr>) data
           = ((fst (onData b st data))\<lparr>receivedBytes := k\<rparr>, snd (onData b st data))"
    unfolding e using assms(3) by (auto simp: on_end_def Let_def split: option.splits)
  show ?thesis
  proof (cases "writable st")
    case None
    with assms(3) indep show ?thesis
      by (simp add: e on_end_def)
  next
    case (Some w)
    let ?st2 = "st\<lparr>writable := Some (w\<lparr>w_state := Closing\<rparr>),
                   pending := pending st @ [AfterClose False]\<rparr>"
    have one: "onData b st data
        = (?st2, [LogFileReceived (get_prop meta ''name''), StreamClosed w])"
      if "w_state w = Writable" "\<not> close_rejects b"
      unfolding e using that assms(3) Some by (simp add: on_end_def)
    have two: "receive b st (Frame data # replicate (Suc (length (pending st))) (Settled 0)) =
                   (st\<lparr>writable := None, currentFileMeta := None, pending := [],
                       receivedBytes := receivedBytes st + sum_list (map written (pending st))\<rparr>,
                    [LogFileReceived (get_prop meta ''name''), StreamClosed w,
                     ToastReceived (get_prop meta ''name'')])"
      if "w_state w = Writable" "\<not> close_rejects b"
        and w: "\<forall>c\<in>set (pending st). \<exists>n. c = AfterWrite False n"
    proof -
      have r: "replicate (Suc (length (pending st))) (Settled 0)
          = replicate (length (pending st)) (Settled 0) @ [Settled 0]"
        by (simp add: replicate_append_same)
      have "pending ?st2 = pending st @ [AfterClose False]" by simp
      from settle_writes [OF this w, of b]
      have s: "receive b ?st2 (replicate (length (pending st)) (Settled 0))
          = (?st2\<lparr>pending := [AfterClose False],
                  receivedBytes := receivedBytes ?st2 + sum_list (map written (pending st))\<rparr>, [])" .
      show ?thesis
        unfolding r using assms(3) one [OF that(1,2)]
        by (simp add: receive_append s settle_def)
    qed
    from one two indep Some show ?thesis by simp
  qed
qed

lemma control_message_file_end: "control_message file_end = Some (JObj [(''type'', JStr ''file-end'')])"
  by code_simp

theorem end_marker_materialises_witness:
  "control_message file_end = Some (JObj [(''type'', JStr ''file-end'')]) \<and>
   onData blob_browser
     \<lparr>currentFileMeta = Some (header_object file_ten), writable = None, chunks = [''abc''],
      receivedBytes = 3, pending = []\<rparr> file_end
   = (\<lparr>currentFileMeta = None, writable = None, chunks = [], receivedBytes = 3, pending = []\<rparr>,
      [LogFileReceived (Some (JStr ''t.bin'')), BlobDownload (Some (JStr ''t.bin'')) ''abc'',
       ToastReceived (Some (JStr ''t.bin''))]) \<and>
   receive stream_browser
     \<lparr>currentFileMeta = Some (header_object file_ten),
      writable = Some \<lparr>w_name = Some (JStr ''t.bin''), w_size = Some (JNum ''10''),
                       w_chunks = [''abc''], w_state = Writable\<rparr>,
      chunks = [], receivedBytes = 0, pending = [AfterWrite False 3]\<rparr>
     [Frame file_end, Settled 0, Settled 0]
   = (\<lparr>currentFileMeta = None, writable = None, chunks = [], receivedBytes = 3, pending = []\<rparr>,
      [LogFileReceived (Some (JStr ''t.bin'')),
       StreamClosed \<lparr>w_name = Some (JStr ''t.bin''), w_size = Some (JNum ''10''),
                     w_chunks = [''abc''], w_state = Writable\<rparr>,
       ToastReceived (Some (JStr ''t.bin''))])"
proof -
  let ?s1 = "\<lparr>currentFileMeta = Some (header_object file_ten), writable = None, chunks = [''abc''],
        receivedBytes = 3, pending = []\<rparr>"
  let ?s2 = "\<lparr>currentFileMeta = Some (header_object file_ten),
        writable = Some \<lparr>w_name = Some (JStr ''t.bin''), w_size = Some (JNum ''10''),
                         w_chunks = [''abc''], w_state = Writable\<rparr>,
        chunks = [], receivedBytes = 0, pending = [AfterWrite False 3]\<rparr>"
  have t: "get_prop (JObj [(''type'', JStr ''file-end'')]) ''type'' = Some (JStr ''file-end'')"
    by simp
  have n: "get_prop (header_object file_ten) ''name'' = Some (JStr ''t.bin'')"
    by code_simp
  have c: "\<not> close_rejects stream_browser"
    by (simp add: stream_browser_def)
  have m1: "currentFileMeta ?s1 = Some (header_object file_ten)"
    and m2: "currentFileMeta ?s2 = Some (header_object file_ten)"
    by simp_all
  from end_marker_materialises [OF control_message_file_end t m1, of blob_browser 3]
  have b: "onData blob_browser ?s1 file_end
      = (\<lparr>currentFileMeta = None, writable = None, chunks = [], receivedBytes = 3, pending = []\<rparr>,
         [LogFileReceived (Some (JStr ''t.bin'')), BlobDownload (Some (JStr ''t.bin'')) ''abc'',
          ToastReceived (Some (JStr ''t.bin''))])"
    by (simp add: n)
  from end_marker_materialises [OF control_message_file_end t m2, of stream_browser 0] c
  have "receive stream_browser ?s2
        (Frame file_end # replicate (Suc (length (pending ?s2))) (Settled 0))
      = (?s2\<lparr>writable := None, currentFileMeta := None, pending := [],
             receivedBytes := receivedBytes ?s2 + sum_list (map written (pending ?s2))\<rparr>,
         [LogFileReceived (get_prop (header_object file_ten) ''name''),
          StreamClosed \<lparr>w_name = Some (JStr ''t.bin''), w_size = Some (JNum ''10''),
                        w_chunks = [''abc''], w_state = Writable\<rparr>,
          ToastReceived (get_prop (header_object file_ten) ''name'')])"
    by (simp del: receive.simps)
  then have s: "receive stream_browser ?s2 [Frame file_end, Settled 0, Settled 0]
      = (\<lparr>currentFileMeta = None, writable = None, chunks = [], receivedBytes = 3, pending = []\<rparr>,
         [LogFileReceived (Some (JStr ''t.bin'')),
          StreamClosed \<lparr>w_name = Some (JStr ''t.bin''), w_size = Some (JNum ''10''),
                        w_chunks = [''abc''], w_state = Writable\<rparr>,
          ToastReceived (Some (JStr ''t.bin''))])"
    by (simp add: n del: receive.simps)
  from control_message_file_end b s show ?thesis by blast
qed

section \<open>Properties of the sender\<close>

lemma trace_suspend [simp]: "trace (suspend e st) = trace st"
  by (simp add: suspend_def)

lemma gate_run_append:
  "gate_run g (xs @ ys) = (case gate_run g xs of None \<Rightarrow> None | Some g' \<Rightarrow> gate_run g' ys)"
  by (induction xs arbitrary: g) (auto split: option.splits)

lemma gate_run_snoc:
  "gate_run g xs = Some g' \<Longrightarrow> gate_run g (xs @ [ev]) = gate_step g' ev"
  by (simp add: gate_run_append split: option.splits)

lemma waitBelow_gate:
  assumes "waitBelow e st = Some st'"
  shows "gate_run Idle (trace st) = Some Waiting \<longrightarrow>
         (\<exists>n. channel (world st') = Some n \<and> n < BUFFER_THRESHOLD \<and>
              gate_run Idle (trace st') = Some (Clear n))"
  using assms
proof (induction rule: waitBelow.raw_induct [rotated 1, consumes 1])
  case (1 waitBelow e st st')
  show ?case
  proof
    assume w: "gate_run Idle (trace st) = Some Waiting"
    from 1(2) obtain n where n: "channel (world st) = Some n"
      by (cases "channel (world st)") auto
    let ?st1 = "st\<lparr>trace := trace st @ [BufferedAmount n]\<rparr>"
    show "\<exists>n. channel (world st') = Some n \<and> n < BUFFER_THRESHOLD \<and>
              gate_run Idle (trace st') = Some (Clear n)"
    proof (cases "n < BUFFER_THRESHOLD")
      case True
      with 1(2) n have "st' = ?st1" by (simp add: Let_def)
      with True n w show ?thesis
        by (simp add: gate_run_snoc)
    next
      case False
      with 1(2) n have r: "waitBelow e (suspend e ?st1) = Some st'"
        by (simp add: Let_def)
      from False w have "gate_run Idle (trace (suspend e ?st1)) = Some Waiting"
        by (simp add: gate_run_snoc)
      with 1(1) [OF r] show ?thesis by blast
    qed
  qed
qed

lemma backpressure_gate:
  assumes "backpressure e st = Some st'" and "gate_run Idle (trace st) = Some Idle"
  shows "(channel (world st') = None \<and> st' = st) \<or>
         (\<exists>n. channel (world st') = Some n \<and> n \<le> BUFFER_THRESHOLD \<and>
              gate_run Idle (trace st') = Some (Clear n))"
proof (cases "channel (world st)")
  case None
  with assms show ?thesis by (simp add: backpressure_def)
next
  case (Some n)
  let ?st1 = "st\<lparr>trace := trace st @ [BufferedAmount n]\<rparr>"
  show ?thesis
  proof (cases "n > BUFFER_THRESHOLD")
    case True
    with assms Some have w: "waitBelow e ?st1 = Some st'"
      by (simp add: backpressure_def Let_def)
    from True assms(2) have "gate_run Idle (trace ?st1) = Some Waiting"
      by (simp add: gate_run_snoc)
    with waitBelow_gate [OF w] show ?thesis by auto
  next
    case False
    with assms Some have "st' = ?st1"
      by (simp add: backpressure_def Let_def)
    with False Some assms(2) show ?thesis
      by (simp add: gate_run_snoc)
  qed
qed

lemma peer_send_Ok:
  assumes "peer_send e st x = Ok st'"
  shows "\<exists>n. channel (world st) = Some n \<and>
             trace st' = trace st @ [Sent x (n + length (wire_bytes x))]"
  using assms by (auto simp: peer_send_def Let_def split: option.splits if_splits)

lemma peer_send_Threw: "peer_send e st x = Threw st' \<Longrightarrow> trace st' = trace st"
  by (auto simp: peer_send_def Let_def split: option.splits if_splits)

lemma peer_send_not_Hung: "peer_send e st x \<noteq> Hung st'"
  by (auto simp: peer_send_def Let_def split: option.splits if_splits)

lemma peer_send_no_channel: "channel (world st) = None \<Longrightarrow> \<exists>st'. peer_send e st x = Threw st'"
  by (simp add: peer_send_def Let_def)

lemma peer_send_Text_gate:
  "peer_send e st (Text s) = Ok st' \<Longrightarrow> gate_run Idle (trace st) = Some g \<Longrightarrow>
   gate_run Idle (trace st') = Some Idle"
  by (auto dest!: peer_send_Ok simp: gate_run_snoc)

lemma sendChunks_gate:
  "gate_run Idle (trace st) = Some Idle \<Longrightarrow>
   (case sendChunks e f tb tf i off st of
      Ok st' \<Rightarrow> gate_run Idle (trace st') = Some Idle
    | Threw st' \<Rightarrow> gate_run Idle (trace st') \<noteq> None
    | Hung st' \<Rightarrow> gate_run Idle (trace st') \<noteq> None)"
proof (induction e f tb tf i off st rule: sendChunks.induct)
  case (1 e f tb tf i off st)
  let ?chunk = "take CHUNK_SIZE (drop off (contents f))"
  let ?st1 = "suspend e st"
  show ?case
  proof (cases "off < file_size f")
    case False
    with 1(2) show ?thesis by (simp add: sendChunks.simps)
  next
    case more: True
    show ?thesis
    proof (cases "readRejects (world ?st1)")
      case True
      with more 1(2) show ?thesis by (simp add: sendChunks.simps Let_def)
    next
      case readable: False
      show ?thesis
      proof (cases "backpressure e ?st1")
        case None
        with more readable 1(2) show ?thesis by (simp add: sendChunks.simps Let_def)
      next
        case (Some st2)
        from 1(2) have c1: "gate_run Idle (trace ?st1) = Some Idle" by simp
        show ?thesis
        proof (cases "peer_send e st2 (Binary ?chunk)")
          case (Hung st3)
          then show ?thesis by (simp add: peer_send_not_Hung)
        next
          case (Threw st3)
          from backpressure_gate [OF Some c1] have "gate_run Idle (trace st2) \<noteq> None"
            using c1 by auto
          with more readable Some Threw peer_send_Threw [OF Threw] show ?thesis
            by (simp add: sendChunks.simps Let_def)
        next
          case sent: (Ok st3)
          from peer_send_Ok [OF sent] obtain n where n: "channel (world st2) = Some n"
            and st3: "trace st3 = trace st2 @ [Sent (Binary ?chunk) (n + length ?chunk)]"
            by auto
          from backpressure_gate [OF Some c1] n have g2: "gate_run Idle (trace st2) = Some (Clear n)"
            and le: "n \<le> BUFFER_THRESHOLD" by auto
          have c3: "gate_run Idle (trace st3) = Some Idle"
            using g2 le by (simp add: st3 gate_run_snoc)
          let ?st4 = "st3\<lparr>sentBytesTotal := sentBytesTotal st3 + length ?chunk\<rparr>"
          let ?st5 = "?st4\<lparr>ui := updateStats (date_now e (clock ?st4)) (ui ?st4) tb
                               (int (sentBytesTotal ?st4)) (name f) tf i\<rparr>"
          have "case sendChunks e f tb tf i (off + length ?chunk) ?st5 of
                  Ok st' \<Rightarrow> gate_run Idle (trace st') = Some Idle
                | Threw st' \<Rightarrow> gate_run Idle (trace st') \<noteq> None
                | Hung st' \<Rightarrow> gate_run Idle (trace st') \<noteq> None"
            using more readable Some sent c3
            by (intro 1(1) [where x = ?chunk and xa = ?st1 and xaa = ?st4]) simp_all
          moreover have "sendChunks e f tb tf i off st
                       = sendChunks e f tb tf i (off + length ?chunk) ?st5"
            using more readable Some sent
            by (subst sendChunks.simps) (simp add: Let_def)
          ultimately show ?thesis by simp
        qed
      qed
    qed
  qed
qed

lemma map_filter_append: "List.map_filter g (xs @ ys) = List.map_filter g xs @ List.map_filter g ys"
  by (induction xs) (auto split: option.splits)

lemma frames_sent_simps [simp]:
  "frames_sent [] = []"
  "frames_sent (xs @ ys) = frames_sent xs @ frames_sent ys"
  "frames_sent (Sent x n # xs) = x # frames_sent xs"
  "frames_sent (BufferedAmount n # xs) = frames_sent xs"
  "frames_sent (ConsoleError nm # xs) = frames_sent xs"
  "frames_sent (Toast t k # xs) = frames_sent xs"
  "frames_sent (SetTransferring v # xs) = frames_sent xs"
  "frames_sent (SetSelectedFiles_empty # xs) = frames_sent xs"
  by (simp_all add: frames_sent_def map_filter_append)

lemma failed_names_simps [simp]:
  "failed_names [] = []"
  "failed_names (xs @ ys) = failed_names xs @ failed_names ys"
  "failed_names (Sent x n # xs) = failed_names xs"
  "failed_names (BufferedAmount n # xs) = failed_names xs"
  "failed_names (ConsoleError nm # xs) = nm # failed_names xs"
  "failed_names (Toast t k # xs) = failed_names xs"
  "failed_names (SetTransferring v # xs) = failed_names xs"
  "failed_names (SetSelectedFiles_empty # xs) = failed_names xs"
  by (simp_all add: failed_names_def map_filter_append)

lemma waitBelow_trace:
  assumes "waitBelow e st = Some st'"
  shows "\<exists>ext. trace st' = trace st @ ext \<and> frames_sent ext = [] \<and> failed_names ext = []"
  using assms
proof (induction rule: waitBelow.raw_induct [rotated 1, consumes 1])
  case (1 waitBelow e st st')
  from 1(2) obtain n where n: "channel (world st) = Some n"
    by (cases "channel (world st)") auto
  let ?st1 = "st\<lparr>trace := trace st @ [BufferedAmount n]\<rparr>"
  show ?case
  proof (cases "n < BUFFER_THRESHOLD")
    case True
    with 1(2) n have "st' = ?st1" by (simp add: Let_def)
    then show ?thesis by simp
  next
    case False
    with 1(2) n have r: "waitBelow e (suspend e ?st1) = Some st'"
      by (simp add: Let_def)
    from 1(1) [OF r] obtain ext where "trace st' = trace (suspend e ?st1) @ ext"
      "frames_sent ext = []" "failed_names ext = []"
      by blast
    then have "trace st' = trace st @ (BufferedAmount n # ext) \<and>
       frames_sent (BufferedAmount n # ext) = [] \<and> failed_names (BufferedAmount n # ext) = []"
      by simp
    then show ?thesis by blast
  qed
qed

lemma backpressure_trace:
  assumes "backpressure e st = Some st'"
  shows "\<exists>ext. trace st' = trace st @ ext \<and> frames_sent ext = [] \<and> failed_names ext = []"
proof (cases "channel (world st)")
  case None
  with assms show ?thesis by (simp add: backpressure_def)
next
  case (Some n)
  let ?st1 = "st\<lparr>trace := trace st @ [BufferedAmount n]\<rparr>"
  show ?thesis
  proof (cases "n > BUFFER_THRESHOLD")
    case True
    with assms Some have "waitBelow e ?st1 = Some st'"
      by (simp add: backpressure_def Let_def)
    from waitBelow_trace [OF this] obtain ext where "trace st' = trace ?st1 @ ext"
      "frames_sent ext = []" "failed_names ext = []"
      by blast
    then have "trace st' = trace st @ (BufferedAmount n # ext) \<and>
       frames_sent (BufferedAmount n # ext) = [] \<and> failed_names (BufferedAmount n # ext) = []"
      by simp
    then show ?thesis by blast
  next
    case False
    with assms Some have "st' = ?st1"
      by (simp add: backpressure_def Let_def)
    then show ?thesis by simp
  qed
qed

lemma chunks_from_next:
  assumes "off < length bytes"
  shows "chunks_from (off + length (take CHUNK_SIZE (drop off bytes))) bytes
       = chunks_from (off + CHUNK_SIZE) bytes"
proof (cases "CHUNK_SIZE \<le> length bytes - off")
  case True
  then show ?thesis by (simp add: min_def)
next
  case False
  then have "chunks_from (off + length (take CHUNK_SIZE (drop off bytes))) bytes = []"
    using assms by (subst chunks_from.simps) (simp add: min_def)
  moreover from False have "chunks_from (off + CHUNK_SIZE) bytes = []"
    by (subst chunks_from.simps) simp
  ultimately show ?thesis by simp
qed

text \<open>
  What a run of the chunk loop adds to the trace: no failure report, and as frames the chunks
  from the offset on, all of them when the loop ends normally and the first few otherwise.
\<close>

lemma sendChunks_trace:
  "\<exists>ext. trace (state_of (sendChunks e f tb tf i off st)) = trace st @ ext \<and>
         failed_names ext = [] \<and>
         (\<exists>k. frames_sent ext = take k (map Binary (chunks_from off (contents f)))) \<and>
         (\<forall>st'. sendChunks e f tb tf i off st = Ok st' \<longrightarrow>
                frames_sent ext = map Binary (chunks_from off (contents f)))"
proof (induction e f tb tf i off st rule: sendChunks.induct)
  case (1 e f tb tf i off st)
  let ?chunk = "take CHUNK_SIZE (drop off (contents f))"
  let ?st1 = "suspend e st"
  let ?all = "map Binary (chunks_from off (contents f))"
  have nothing: "\<exists>ext. trace st = trace st @ ext \<and> failed_names ext = [] \<and>
         (\<exists>k. frames_sent ext = take k ?all)"
    by (rule exI [of _ "[]"]) (simp add: exI [of _ 0])
  show ?case
  proof (cases "off < file_size f")
    case False
    then have "sendChunks e f tb tf i off st = Ok st" "chunks_from off (contents f) = []"
      by (simp_all add: sendChunks.simps chunks_from.simps file_size_def)
    then show ?thesis by simp
  next
    case more: True
    show ?thesis
    proof (cases "readRejects (world ?st1)")
      case True
      with more have "sendChunks e f tb tf i off st = Threw ?st1"
        by (simp add: sendChunks.simps Let_def)
      with nothing show ?thesis by simp
    next
      case readable: False
      show ?thesis
      proof (cases "backpressure e ?st1")
        case None
        with more readable have "sendChunks e f tb tf i off st = Hung ?st1"
          by (simp add: sendChunks.simps Let_def)
        with nothing show ?thesis by simp
      next
        case (Some st2)
        from backpressure_trace [OF Some] obtain ext2 where
          e2: "trace st2 = trace st @ ext2" "frames_sent ext2 = []" "failed_names ext2 = []"
          by auto
        show ?thesis
        proof (cases "peer_send e st2 (Binary ?chunk)")
          case (Hung st3)
          then show ?thesis by (simp add: peer_send_not_Hung)
        next
          case (Threw st3)
          with more readable Some have "sendChunks e f tb tf i off st = Threw st3"
            by (simp add: sendChunks.simps Let_def)
          moreover have "trace st3 = trace st @ ext2 \<and> failed_names ext2 = [] \<and>
             frames_sent ext2 = take 0 ?all"
            using e2 peer_send_Threw [OF Threw] by simp
          ultimately show ?thesis by (metis outcome.distinct(1) state_of.simps(2))
        next
          case sent: (Ok st3)
          from peer_send_Ok [OF sent] obtain n where
            st3: "trace st3 = trace st2 @ [Sent (Binary ?chunk) n]"
            by auto
          let ?st4 = "st3\<lparr>sentBytesTotal := sentBytesTotal st3 + length ?chunk\<rparr>"
          let ?st5 = "?st4\<lparr>ui := updateStats (date_now e (clock ?st4)) (ui ?st4) tb
                               (int (sentBytesTotal ?st4)) (name f) tf i\<rparr>"
          let ?r = "sendChunks e f tb tf i (off + length ?chunk) ?st5"
          let ?rest = "map Binary (chunks_from (off + length ?chunk) (contents f))"
          have "\<exists>ext. trace (state_of ?r) = trace ?st5 @ ext \<and> failed_names ext = [] \<and>
                  (\<exists>k. frames_sent ext = take k ?rest) \<and>
                  (\<forall>st'. ?r = Ok st' \<longrightarrow> frames_sent ext = ?rest)"
            using more readable Some sent
            by (intro 1 [where x = ?chunk and xa = ?st1 and xaa = ?st4]) simp_all
          then obtain ext5 k where e5: "trace (state_of ?r) = trace ?st5 @ ext5"
            "failed_names ext5 = []" "frames_sent ext5 = take k ?rest"
            "\<forall>st'. ?r = Ok st' \<longrightarrow> frames_sent ext5 = ?rest"
            by blast
          have eq: "sendChunks e f tb tf i off st = ?r"
            using more readable Some sent
            by (subst sendChunks.simps) (simp add: Let_def)
          have cf: "?all = Binary ?chunk # ?rest"
            using more chunks_from_next [of off "contents f"]
            by (subst chunks_from.simps) (simp add: file_size_def)
          let ?ext = "ext2 @ Sent (Binary ?chunk) n # ext5"
          have "trace (state_of ?r) = trace st @ ?ext"
            using e5(1) st3 e2(1) by simp
          moreover have "failed_names ?ext = []"
            using e2(3) e5(2) by simp
          moreover have "frames_sent ?ext = take (Suc k) ?all"
            using e2(2) e5(3) cf by simp
          moreover have "\<forall>st'. ?r = Ok st' \<longrightarrow> frames_sent ?ext = ?all"
            using e5(4) e2(2) cf by simp
          ultimately show ?thesis
            unfolding eq by blast
        qed
      qed
    qed
  qed
qed

text \<open>The same for the body of the \<^verbatim>\<open>try\<close> block of one file.\<close>

lemma sendFile_trace:
  "\<exists>ext. trace (state_of (sendFile e tb tf i f st)) = trace st @ ext \<and>
         failed_names ext = [] \<and>
         (case sendFile e tb tf i f st of
            Ok st' \<Rightarrow> frames_sent ext = file_frames f
          | Threw st' \<Rightarrow> (\<exists>k<length (file_frames f). frames_sent ext = take k (file_frames f))
          | Hung st' \<Rightarrow> (\<exists>k<length (file_frames f). frames_sent ext = take k (file_frames f)))"
proof (cases "peer_send e st (Text (file_header f))")
  case (Hung st1)
  then show ?thesis by (simp add: peer_send_not_Hung)
next
  case (Threw st1)
  then have "sendFile e tb tf i f st = Threw st1" by (simp add: sendFile_def)
  moreover have "\<exists>k<length (file_frames f). [] = take k (file_frames f)"
    by (rule exI [of _ 0]) (simp add: file_frames_def)
  ultimately show ?thesis
    using peer_send_Threw [OF Threw] by (intro exI [of _ "[]"]) simp
next
  case (Ok st1)
  from peer_send_Ok [OF Ok] obtain n where
    t1: "trace st1 = trace st @ [Sent (Text (file_header f)) n]" by auto
  let ?r = "sendChunks e f tb tf i 0 (suspend e st1)"
  let ?chunks = "map Binary (chunks_from 0 (contents f))"
  from sendChunks_trace [of e f tb tf i 0 "suspend e st1"] obtain ext k where
    x: "trace (state_of ?r) = trace st1 @ ext" "failed_names ext = []"
       "frames_sent ext = take k ?chunks"
       "\<forall>st'. ?r = Ok st' \<longrightarrow> frames_sent ext = ?chunks"
    unfolding trace_suspend by blast
  let ?k = "Suc (min k (length ?chunks))"
  have pre: "Text (file_header f) # take k ?chunks = take ?k (file_frames f)"
    by (simp add: file_frames_def min_def)
  have lt: "?k < length (file_frames f)"
    by (simp add: file_frames_def)
  let ?ext1 = "Sent (Text (file_header f)) n # ext"
  have part: "trace (state_of ?r) = trace st @ ?ext1 \<and> failed_names ?ext1 = [] \<and>
     (\<exists>k<length (file_frames f). frames_sent ?ext1 = take k (file_frames f))"
    using x t1 pre lt by (simp del: take_Suc_Cons) blast
  show ?thesis
  proof (cases ?r)
    case (Threw st2)
    with Ok have "sendFile e tb tf i f st = Threw st2" by (simp add: sendFile_def)
    with part Threw show ?thesis by (intro exI [of _ ?ext1]) simp
  next
    case (Hung st2)
    with Ok have "sendFile e tb tf i f st = Hung st2" by (simp add: sendFile_def)
    with part Hung show ?thesis by (intro exI [of _ ?ext1]) simp
  next
    case chunks_done: (Ok st2)
    with x have t2: "trace st2 = trace st1 @ ext" "frames_sent ext = ?chunks" by auto
    from Ok chunks_done have eq: "sendFile e tb tf i f st = peer_send e (suspend e st2) (Text file_end)"
      by (simp add: sendFile_def)
    show ?thesis
    proof (cases "peer_send e (suspend e st2) (Text file_end)")
      case (Hung st4)
      then show ?thesis by (simp add: peer_send_not_Hung)
    next
      case (Threw st4)
      from peer_send_Threw [OF Threw] chunks_done part
      have "trace st4 = trace st @ ?ext1 \<and> failed_names ?ext1 = [] \<and>
            (\<exists>k<length (file_frames f). frames_sent ?ext1 = take k (file_frames f))"
        by simp
      with eq Threw show ?thesis by (intro exI [of _ ?ext1]) simp
    next
      case sent: (Ok st4)
      from peer_send_Ok [OF sent] obtain m where
        t4: "trace st4 = trace st2 @ [Sent (Text file_end) m]" by auto
      let ?ext4 = "Sent (Text (file_header f)) n # ext @ [Sent (Text file_end) m]"
      have "trace st4 = trace st @ ?ext4"
        using t1 t2 t4 by simp
      moreover have "frames_sent ?ext4 = file_frames f"
        using t2(2) by (simp add: file_frames_def)
      moreover have "failed_names ?ext4 = []"
        using x(2) by simp
      ultimately show ?thesis using eq sent by (intro exI [of _ ?ext4]) simp
    qed
  qed
qed

text \<open>
  The loop over the files adds one stretch of trace per file, in the order of the list: either
  all the frames of the file and no failure report, or fewer than all of its frames, in
  order, followed by the report of its failure.
\<close>

lemma sendLoop_segments:
  assumes "sendLoop e tb tf i fs st = Ok st'"
  shows "\<exists>segs. trace st' = trace st @ concat segs \<and>
           list_all2 (\<lambda>f seg.
              (frames_sent seg = file_frames f \<and> failed_names seg = []) \<or>
              (\<exists>pre. seg = pre @ [ConsoleError (name f), Toast (''Failed to send '' @ name f) ''error'']
                    \<and> failed_names pre = []
                    \<and> (\<exists>k<length (file_frames f). frames_sent pre = take k (file_frames f))))
             fs segs"
  using assms
proof (induction fs arbitrary: i st)
  case Nil
  then show ?case by simp
next
  case (Cons f fs)
  let ?Q = "\<lambda>f seg.
              (frames_sent seg = file_frames f \<and> failed_names seg = []) \<or>
              (\<exists>pre. seg = pre @ [ConsoleError (name f), Toast (''Failed to send '' @ name f) ''error'']
                    \<and> failed_names pre = []
                    \<and> (\<exists>k<length (file_frames f). frames_sent pre = take k (file_frames f)))"
  from sendFile_trace [of e tb tf "int i" f st] obtain ext1 where
    x: "trace (state_of (sendFile e tb tf (int i) f st)) = trace st @ ext1"
       "failed_names ext1 = []"
       "case sendFile e tb tf (int i) f st of
            Ok st' \<Rightarrow> frames_sent ext1 = file_frames f
          | Threw st' \<Rightarrow> (\<exists>k<length (file_frames f). frames_sent ext1 = take k (file_frames f))
          | Hung st' \<Rightarrow> (\<exists>k<length (file_frames f). frames_sent ext1 = take k (file_frames f))"
    by blast
  show ?case
  proof (cases "sendFile e tb tf (int i) f st")
    case (Ok st1)
    with Cons.prems have "sendLoop e tb tf (Suc i) fs st1 = Ok st'" by simp
    from Cons.IH [OF this] obtain segs where
      s: "trace st' = trace st1 @ concat segs" "list_all2 ?Q fs segs" by blast
    from x Ok have "?Q f ext1" by simp
    with s x(1) Ok have "trace st' = trace st @ concat (ext1 # segs) \<and> list_all2 ?Q (f # fs) (ext1 # segs)"
      by simp
    then show ?thesis by blast
  next
    case (Threw st1)
    with Cons.prems have "sendLoop e tb tf (Suc i) fs (report_failure f st1) = Ok st'" by simp
    from Cons.IH [OF this] obtain segs where
      s: "trace st' = trace (report_failure f st1) @ concat segs" "list_all2 ?Q fs segs" by blast
    let ?seg = "ext1 @ [ConsoleError (name f), Toast (''Failed to send '' @ name f) ''error'']"
    from x Threw have "?Q f ?seg" by simp
    moreover from s(1) x(1) Threw have "trace st' = trace st @ concat (?seg # segs)"
      by (simp add: report_failure_def)
    ultimately have "trace st' = trace st @ concat (?seg # segs) \<and> list_all2 ?Q (f # fs) (?seg # segs)"
      using s(2) by simp
    then show ?thesis by blast
  next
    case (Hung st1)
    with Cons.prems show ?thesis by simp
  qed
qed

lemma sendLoop_not_Threw: "sendLoop e tb tf i fs st \<noteq> Threw st'"
  by (induction fs arbitrary: i st) (auto split: outcome.splits)

lemma sendLoop_append:
  "sendLoop e tb tf i (fs1 @ fs2) st =
     (case sendLoop e tb tf i fs1 st of
        Ok st1 \<Rightarrow> sendLoop e tb tf (i + length fs1) fs2 st1
      | Threw st1 \<Rightarrow> Threw st1
      | Hung st1 \<Rightarrow> Hung st1)"
  by (induction fs1 arbitrary: i st) (auto split: outcome.splits)

lemma sendLoop_frames:
  assumes "sendLoop e tb tf i fs st = Ok st'" and "failed_names (trace st') = []"
  shows "frames_sent (trace st') = frames_sent (trace st) @ concat (map file_frames fs)"
proof -
  let ?Q = "\<lambda>f seg.
              (frames_sent seg = file_frames f \<and> failed_names seg = []) \<or>
              (\<exists>pre. seg = pre @ [ConsoleError (name f), Toast (''Failed to send '' @ name f) ''error'']
                    \<and> failed_names pre = []
                    \<and> (\<exists>k<length (file_frames f). frames_sent pre = take k (file_frames f)))"
  from sendLoop_segments [OF assms(1)] obtain segs where
    s: "trace st' = trace st @ concat segs" "list_all2 ?Q fs segs" by blast
  from s(1) assms(2) have "failed_names (concat segs) = []" by simp
  with s(2) have "frames_sent (concat segs) = concat (map file_frames fs)"
    by (induction fs segs rule: list_all2_induct) auto
  with s(1) show ?thesis by simp
qed

lemma sendFiles_frames:
  assumes "sendFiles e files st = Ok st'" and "failed_names (trace st') = []"
  shows "frames_sent (trace st') = frames_sent (trace st) @ concat (map file_frames files)"
proof -
  let ?tb = "int (sum_list (map file_size files))"
  let ?tf = "int (length files)"
  let ?st1 = "st\<lparr>trace := trace st @ [SetTransferring True], sentBytesTotal := 0,
                  ui := \<lparr>stats = \<lparr>totalFiles = ?tf, processedFiles = 0,
                                    totalBytes = ?tb, processedBytes = 0, speed = ''0 MB/s'',
                                    eta = Dashes, currentFile = first_name files\<rparr>,
                          lastBytesRef = 0, lastTimeRef = date_now e (clock st)\<rparr>\<rparr>"
  from assms(1) obtain st2 where l: "sendLoop e ?tb ?tf 0 files ?st1 = Ok st2"
    and t: "trace st' = trace st2 @ [SetTransferring False, Toast ''All files sent!'' ''success'',
                                     SetSelectedFiles_empty]"
    by (auto simp: sendFiles_def Let_def split: outcome.splits)
  from t assms(2) have "failed_names (trace st2) = []" by simp
  from sendLoop_frames [OF l this] t show ?thesis by simp
qed

lemma sendFile_gate:
  assumes "gate_run Idle (trace st) = Some Idle"
  shows "case sendFile e tb tf i f st of
           Ok st' \<Rightarrow> gate_run Idle (trace st') = Some Idle
         | Threw st' \<Rightarrow> gate_run Idle (trace st') \<noteq> None
         | Hung st' \<Rightarrow> gate_run Idle (trace st') \<noteq> None"
proof (cases "peer_send e st (Text (file_header f))")
  case (Hung st1)
  then show ?thesis by (simp add: peer_send_not_Hung)
next
  case (Threw st1)
  with peer_send_Threw [OF Threw] assms show ?thesis by (simp add: sendFile_def)
next
  case (Ok st1)
  from peer_send_Text_gate [OF Ok assms] have c1: "gate_run Idle (trace (suspend e st1)) = Some Idle"
    by simp
  let ?r = "sendChunks e f tb tf i 0 (suspend e st1)"
  note g = sendChunks_gate [OF c1, of e f tb tf i 0]
  show ?thesis
  proof (cases ?r)
    case (Threw st2)
    with Ok g show ?thesis by (simp add: sendFile_def)
  next
    case (Hung st2)
    with Ok g show ?thesis by (simp add: sendFile_def)
  next
    case chunks_done: (Ok st2)
    with g have c2: "gate_run Idle (trace (suspend e st2)) = Some Idle" by simp
    from Ok chunks_done have eq: "sendFile e tb tf i f st = peer_send e (suspend e st2) (Text file_end)"
      by (simp add: sendFile_def)
    show ?thesis
    proof (cases "peer_send e (suspend e st2) (Text file_end)")
      case (Hung st4)
      then show ?thesis by (simp add: peer_send_not_Hung)
    next
      case (Threw st4)
      with peer_send_Threw [OF Threw] c2 eq show ?thesis by simp
    next
      case sent: (Ok st4)
      with peer_send_Text_gate [OF sent c2] eq show ?thesis by simp
    qed
  qed
qed

lemma sendLoop_gate:
  "gate_run Idle (trace st) = Some Idle \<Longrightarrow>
   (case sendLoop e tb tf i fs st of
      Ok st' \<Rightarrow> gate_run Idle (trace st') = Some Idle
    | Threw st' \<Rightarrow> gate_run Idle (trace st') \<noteq> None
    | Hung st' \<Rightarrow> gate_run Idle (trace st') \<noteq> None)"
proof (induction fs arbitrary: i st)
  case Nil
  then show ?case by simp
next
  case (Cons f fs)
  note g = sendFile_gate [OF Cons.prems, of e tb tf "int i" f]
  show ?case
  proof (cases "sendFile e tb tf (int i) f st")
    case (Ok st1)
    with g have "gate_run Idle (trace st1) = Some Idle" by simp
    from Cons.IH [OF this, of "Suc i"] Ok show ?thesis by simp
  next
    case (Threw st1)
    with g obtain g1 where "gate_run Idle (trace st1) = Some g1" by auto
    then have "gate_run Idle (trace (report_failure f st1)) = Some Idle"
      by (simp add: report_failure_def gate_run_append)
    from Cons.IH [OF this, of "Suc i"] Threw show ?thesis by simp
  next
    case (Hung st1)
    with g show ?thesis by simp
  qed
qed

lemma sendFiles_gate:
  assumes "gate_run Idle (trace st) = Some Idle"
  shows "gate_run Idle (trace (state_of (sendFiles e files st))) \<noteq> None"
proof -
  let ?tb = "int (sum_list (map file_size files))"
  let ?tf = "int (length files)"
  let ?st1 = "st\<lparr>trace := trace st @ [SetTransferring True], sentBytesTotal := 0,
                  ui := \<lparr>stats = \<lparr>totalFiles = ?tf, processedFiles = 0,
                                    totalBytes = ?tb, processedBytes = 0, speed = ''0 MB/s'',
                                    eta = Dashes, currentFile = first_name files\<rparr>,
                          lastBytesRef = 0, lastTimeRef = date_now e (clock st)\<rparr>\<rparr>"
  from assms have "gate_run Idle (trace ?st1) = Some Idle"
    by (simp add: gate_run_snoc)
  note g = sendLoop_gate [OF this, of e ?tb ?tf 0 files]
  show ?thesis
  proof (cases "sendLoop e ?tb ?tf 0 files ?st1")
    case (Ok st2)
    with g have "gate_run Idle (trace st2) = Some Idle" by simp
    then have "gate_run Idle (trace st2 @ [SetTransferring False, Toast ''All files sent!'' ''success'',
                                           SetSelectedFiles_empty]) = Some Idle"
      by (simp add: gate_run_append)
    with Ok show ?thesis by (simp add: sendFiles_def Let_def)
  next
    case (Threw st2)
    with g show ?thesis by (simp add: sendFiles_def Let_def)
  next
    case (Hung st2)
    with g show ?thesis by (simp add: sendFiles_def Let_def)
  qed
qed

lemma gate_run_bound:
  "gate_run g tr \<noteq> None \<Longrightarrow> Sent (Binary c) n \<in> set tr \<Longrightarrow> n \<le> BUFFER_THRESHOLD + CHUNK_SIZE"
proof (induction tr arbitrary: g)
  case Nil
  then show ?case by simp
next
  case (Cons ev tr)
  from Cons.prems(1) obtain g' where s: "gate_step g ev = Some g'" and r: "gate_run g' tr \<noteq> None"
    by (auto split: option.splits)
  show ?case
  proof (cases "ev = Sent (Binary c) n")
    case True
    with s show ?thesis
      by (auto split: gate.splits if_splits)
  next
    case False
    with Cons.prems(2) have "Sent (Binary c) n \<in> set tr" by simp
    from Cons.IH [OF r this] show ?thesis .
  qed
qed

text \<open>
  Claim C7. In every run of \<^verbatim>\<open>sendFiles\<close>, whatever the surroundings do and whether the run
  returns or waits for ever, the events keep to the backpressure rule read by \<open>gate_run\<close>:
  a chunk is handed to the channel only right after a reading of \<^verbatim>\<open>bufferedAmount\<close> that is at
  most the threshold, and once a reading has been above the threshold, only after a reading
  below it; so \<^verbatim>\<open>bufferedAmount\<close> after a chunk is at most the threshold plus one chunk.
\<close>

theorem backpressure_before_each_chunk:
  "backpressure_respected (trace (state_of (sendFiles e files (initial_sender w))))
   \<and> (\<forall>c n. Sent (Binary c) n \<in> set (trace (state_of (sendFiles e files (initial_sender w))))
            \<longrightarrow> n \<le> BUFFER_THRESHOLD + CHUNK_SIZE)"
proof -
  have "gate_run Idle (trace (initial_sender w)) = Some Idle"
    by (simp add: initial_sender_def)
  from sendFiles_gate [OF this, of e files]
  have g: "gate_run Idle (trace (state_of (sendFiles e files (initial_sender w)))) \<noteq> None" .
  then show ?thesis
    unfolding backpressure_respected_def using gate_run_bound by blast
qed

lemma concat_chunks_from: "concat (chunks_from off bytes) = drop off bytes"
proof (induction off bytes rule: chunks_from.induct)
  case (1 off bytes)
  show ?case
  proof (cases "off < length bytes")
    case True
    with 1 have "concat (chunks_from (off + CHUNK_SIZE) bytes) = drop (off + CHUNK_SIZE) bytes"
      by simp
    moreover have "take CHUNK_SIZE (drop off bytes) @ drop (off + CHUNK_SIZE) bytes = drop off bytes"
      by (metis append_take_drop_id drop_drop add.commute)
    ultimately show ?thesis
      using True by (subst chunks_from.simps) simp
  next
    case False
    then show ?thesis by (subst chunks_from.simps) simp
  qed
qed







lemma JSON_parse_file_header: "JSON_parse (file_header f) = Some (header_object f)"
  unfolding file_header_def header_object_def by (rule JSON_parse_header)


lemma length_header_a: "length (file_header file_a) = 61"
  by code_simp

lemma length_header_b: "length (file_header file_b) = 63"
  by code_simp

lemma length_file_end: "length file_end = 19"
  by code_simp

lemma file_a_simps: "contents file_a = ''abc''" "name file_a = ''a.txt''" "file_size file_a = 3"
  by (simp_all add: file_a_def file_size_def)

lemma file_b_simps: "contents file_b = ''{}''" "name file_b = ''b.txt''" "file_size file_b = 2"
  by (simp_all add: file_b_def file_size_def)

lemma still_run:
  "trace (state_of (sendFiles still_env [file_a, file_b] (initial_sender clear_world))) =
     [SetTransferring True, Sent (Text (file_header file_a)) 61, BufferedAmount 61,
      Sent (Binary ''abc'') 64, Sent (Text file_end) 83,
      Sent (Text (file_header file_b)) 146, BufferedAmount 146,
      Sent (Binary ''{}'') 148, Sent (Text file_end) 167,
      SetTransferring False, Toast ''All files sent!'' ''success'', SetSelectedFiles_empty]"
  by (simp add: sendFiles_def sendFile_def sendChunks.simps backpressure_def
      peer_send_def suspend_def initial_sender_def clear_world_def still_env_def Let_def
      length_header_a length_header_b length_file_end file_a_simps file_b_simps
      CHUNK_SIZE_def BUFFER_THRESHOLD_def)

lemma still_run_Ok:
  "sendFiles still_env [file_a, file_b] (initial_sender clear_world)
   = Ok (state_of (sendFiles still_env [file_a, file_b] (initial_sender clear_world)))"
  by (simp add: sendFiles_def sendFile_def sendChunks.simps backpressure_def
      peer_send_def suspend_def initial_sender_def clear_world_def still_env_def Let_def
      length_header_a length_header_b length_file_end file_a_simps file_b_simps
      CHUNK_SIZE_def BUFFER_THRESHOLD_def)


lemma draining_run:
  "trace (state_of (sendFiles draining_env [file_a] (initial_sender busy_world))) =
     [SetTransferring True, Sent (Text (file_header file_a)) 3000061,
      BufferedAmount 1800061, BufferedAmount 1800061, BufferedAmount 1200061,
      BufferedAmount 600061, Sent (Binary ''abc'') 600064, Sent (Text file_end) 83,
      SetTransferring False, Toast ''All files sent!'' ''success'', SetSelectedFiles_empty]"
  by (simp add: sendFiles_def sendFile_def sendChunks.simps waitBelow.simps backpressure_def
      peer_send_def suspend_def initial_sender_def busy_world_def draining_env_def Let_def
      length_header_a length_file_end file_a_simps CHUNK_SIZE_def BUFFER_THRESHOLD_def)

theorem backpressure_before_each_chunk_witness:
  "trace (state_of (sendFiles draining_env [file_a] (initial_sender busy_world))) =
     [SetTransferring True, Sent (Text (file_header file_a)) 3000061,
      BufferedAmount 1800061, BufferedAmount 1800061, BufferedAmount 1200061,
      BufferedAmount 600061, Sent (Binary ''abc'') 600064, Sent (Text file_end) 83,
      SetTransferring False, Toast ''All files sent!'' ''success'', SetSelectedFiles_empty] \<and>
   backpressure_respected (trace (state_of (sendFiles draining_env [file_a] (initial_sender busy_world)))) \<and>
   Sent (Binary ''abc'') 600064
     \<in> set (trace (state_of (sendFiles draining_env [file_a] (initial_sender busy_world)))) \<and>
   (600064::nat) \<le> BUFFER_THRESHOLD + CHUNK_SIZE \<and>
   \<not> backpressure_respected [BufferedAmount 1800061, Sent (Binary ''abc'') 1800064]"
proof -
  have m: "Sent (Binary ''abc'') 600064
     \<in> set (trace (state_of (sendFiles draining_env [file_a] (initial_sender busy_world))))"
    by (simp add: draining_run)
  have n: "\<not> backpressure_respected [BufferedAmount 1800061, Sent (Binary ''abc'') 1800064]"
    by (simp add: backpressure_respected_def BUFFER_THRESHOLD_def)
  from backpressure_before_each_chunk [of draining_env "[file_a]" busy_world] m
  have "backpressure_respected (trace (state_of (sendFiles draining_env [file_a] (initial_sender busy_world))))"
    and "(600064::nat) \<le> BUFFER_THRESHOLD + CHUNK_SIZE"
    by blast+
  with draining_run m n show ?thesis by blast
qed

text \<open>
  What the \<^verbatim>\<open>try\<close> and \<^verbatim>\<open>catch\<close> around the body of one file achieve. When the body for file N
  throws (the files before it having been gone through), the loop goes on with the files after
  N from the state of the throw, to which only the report of the failure (console and toast,
  with the file's name) has been added; no exception leaves \<^verbatim>\<open>sendFiles\<close>; and in a run that
  returns, the trace is made of one stretch per file, in the order of the list, each either
  with all the frames of its file and no report, or with fewer than all its frames followed by
  the report of this file's failure.
\<close>

lemma errors_in_try_are_isolated:
  "(sendLoop e tb tf i fs1 st = Ok st1 \<and> sendFile e tb tf (int (i + length fs1)) f st1 = Threw st2 \<longrightarrow>
      sendLoop e tb tf i (fs1 @ f # fs2) st
        = sendLoop e tb tf (Suc (i + length fs1)) fs2 (report_failure f st2)
      \<and> trace (report_failure f st2)
        = trace st2 @ [ConsoleError (name f), Toast (''Failed to send '' @ name f) ''error''])
   \<and> sendFiles e files st \<noteq> Threw st'
   \<and> (sendFiles e files st = Ok st' \<longrightarrow>
        (\<exists>segs. trace st' = trace st @ [SetTransferring True] @ concat segs @
                   [SetTransferring False, Toast ''All files sent!'' ''success'',
                    SetSelectedFiles_empty]
           \<and> list_all2 (\<lambda>f seg.
                (frames_sent seg = file_frames f \<and> failed_names seg = []) \<or>
                (\<exists>pre. seg = pre @ [ConsoleError (name f), Toast (''Failed to send '' @ name f) ''error'']
                      \<and> failed_names pre = []
                      \<and> (\<exists>k<length (file_frames f). frames_sent pre = take k (file_frames f))))
               files segs))"
proof (intro conjI impI)
  assume a: "sendLoop e tb tf i fs1 st = Ok st1 \<and> sendFile e tb tf (int (i + length fs1)) f st1 = Threw st2"
  then show "sendLoop e tb tf i (fs1 @ f # fs2) st
        = sendLoop e tb tf (Suc (i + length fs1)) fs2 (report_failure f st2)"
    by (simp add: sendLoop_append)
  show "trace (report_failure f st2)
        = trace st2 @ [ConsoleError (name f), Toast (''Failed to send '' @ name f) ''error'']"
    by (simp add: report_failure_def)
next
  show "sendFiles e files st \<noteq> Threw st'"
    by (auto simp: sendFiles_def Let_def sendLoop_not_Threw split: outcome.splits)
next
  assume ok: "sendFiles e files st = Ok st'"
  let ?tb = "int (sum_list (map file_size files))"
  let ?tf = "int (length files)"
  let ?st1 = "st\<lparr>trace := trace st @ [SetTransferring True], sentBytesTotal := 0,
                  ui := \<lparr>stats = \<lparr>totalFiles = ?tf, processedFiles = 0,
                                    totalBytes = ?tb, processedBytes = 0, speed = ''0 MB/s'',
                                    eta = Dashes, currentFile = first_name files\<rparr>,
                          lastBytesRef = 0, lastTimeRef = date_now e (clock st)\<rparr>\<rparr>"
  from ok obtain st2 where l: "sendLoop e ?tb ?tf 0 files ?st1 = Ok st2"
    and t: "trace st' = trace st2 @ [SetTransferring False, Toast ''All files sent!'' ''success'',
                                     SetSelectedFiles_empty]"
    by (auto simp: sendFiles_def Let_def split: outcome.splits)
  from sendLoop_segments [OF l] t
  show "\<exists>segs. trace st' = trace st @ [SetTransferring True] @ concat segs @
                   [SetTransferring False, Toast ''All files sent!'' ''success'',
                    SetSelectedFiles_empty]
           \<and> list_all2 (\<lambda>f seg.
                (frames_sent seg = file_frames f \<and> failed_names seg = []) \<or>
                (\<exists>pre. seg = pre @ [ConsoleError (name f), Toast (''Failed to send '' @ name f) ''error'']
                      \<and> failed_names pre = []
                      \<and> (\<exists>k<length (file_frames f). frames_sent pre = take k (file_frames f))))
               files segs"
    by auto
qed

lemma failing_file_a:
  "sendFile failing_env 5 2 0 file_a (initial_sender clear_world)
   = Threw (state_of (sendFile failing_env 5 2 0 file_a (initial_sender clear_world)))"
  by (simp add: sendFile_def sendChunks.simps backpressure_def
      peer_send_def suspend_def initial_sender_def clear_world_def failing_env_def Let_def
      length_header_a length_file_end file_a_simps CHUNK_SIZE_def BUFFER_THRESHOLD_def)

lemma failing_run:
  "trace (state_of (sendFiles failing_env [file_a, file_b] (initial_sender clear_world))) =
     [SetTransferring True, Sent (Text (file_header file_a)) 61, BufferedAmount 61,
      Sent (Binary ''abc'') 64,
      ConsoleError ''a.txt'', Toast ''Failed to send a.txt'' ''error'',
      Sent (Text (file_header file_b)) 127, BufferedAmount 127,
      Sent (Binary ''{}'') 129, Sent (Text file_end) 148,
      SetTransferring False, Toast ''All files sent!'' ''success'', SetSelectedFiles_empty]"
  by (simp add: sendFiles_def sendFile_def sendChunks.simps backpressure_def report_failure_def
      peer_send_def suspend_def initial_sender_def clear_world_def failing_env_def Let_def
      length_header_a length_header_b length_file_end file_a_simps file_b_simps
      CHUNK_SIZE_def BUFFER_THRESHOLD_def)

lemma errors_in_try_are_isolated_example:
  "sendLoop failing_env 5 2 0 [] (initial_sender clear_world) = Ok (initial_sender clear_world) \<and>
   sendFile failing_env 5 2 0 file_a (initial_sender clear_world)
     = Threw (state_of (sendFile failing_env 5 2 0 file_a (initial_sender clear_world))) \<and>
   sendLoop failing_env 5 2 0 [file_a, file_b] (initial_sender clear_world)
     = sendLoop failing_env 5 2 1 [file_b]
         (report_failure file_a (state_of (sendFile failing_env 5 2 0 file_a (initial_sender clear_world)))) \<and>
   trace (state_of (sendFiles failing_env [file_a, file_b] (initial_sender clear_world))) =
     [SetTransferring True, Sent (Text (file_header file_a)) 61, BufferedAmount 61,
      Sent (Binary ''abc'') 64,
      ConsoleError ''a.txt'', Toast ''Failed to send a.txt'' ''error'',
      Sent (Text (file_header file_b)) 127, BufferedAmount 127,
      Sent (Binary ''{}'') 129, Sent (Text file_end) 148,
      SetTransferring False, Toast ''All files sent!'' ''success'', SetSelectedFiles_empty]"
proof -
  have h1: "sendLoop failing_env 5 2 0 [] (initial_sender clear_world) = Ok (initial_sender clear_world)"
    by simp
  have h2: "sendFile failing_env 5 2 (int (0 + length ([]::File list))) file_a (initial_sender clear_world)
     = Threw (state_of (sendFile failing_env 5 2 0 file_a (initial_sender clear_world)))"
    using failing_file_a by simp
  from errors_in_try_are_isolated [of failing_env 5 2 0 "[]" "initial_sender clear_world"
      "initial_sender clear_world" file_a
      "state_of (sendFile failing_env 5 2 0 file_a (initial_sender clear_world))" "[file_b]"]
    h1 h2
  have "sendLoop failing_env 5 2 0 [file_a, file_b] (initial_sender clear_world)
     = sendLoop failing_env 5 2 1 [file_b]
         (report_failure file_a (state_of (sendFile failing_env 5 2 0 file_a (initial_sender clear_world))))"
    by simp
  with h1 failing_file_a failing_run show ?thesis by blast
qed

text \<open>
  Claim C8 does not hold of the code: an error on one file can keep all the files after it
  from being sent. The function \<^verbatim>\<open>check\<close> of the backpressure wait runs a second time and later
  from a timer, outside the \<^verbatim>\<open>try\<close> block; when the channel has gone by then, its TypeError
  reaches no \<^verbatim>\<open>catch\<close>, the promise the loop awaits never settles, and \<^verbatim>\<open>sendFiles\<close> neither
  reports the file nor goes on to the next one. Here the buffer holds three million bytes when
  \<^verbatim>\<open>a.txt\<close> and \<^verbatim>\<open>b.txt\<close> are sent and the peer is destroyed during the wait before the first
  chunk: the run never returns, the header of \<^verbatim>\<open>a.txt\<close> is the only frame sent, nothing of
  \<^verbatim>\<open>b.txt\<close> is sent and no failure is reported.
\<close>

theorem channel_lost_while_waiting_hangs:
  "sendFiles vanish_env [file_a, file_b] (initial_sender busy_world)
     = Hung (state_of (sendFiles vanish_env [file_a, file_b] (initial_sender busy_world))) \<and>
   trace (state_of (sendFiles vanish_env [file_a, file_b] (initial_sender busy_world)))
     = [SetTransferring True, Sent (Text (file_header file_a)) 3000061] \<and>
   frames_sent (trace (state_of (sendFiles vanish_env [file_a, file_b] (initial_sender busy_world))))
     = [Text (file_header file_a)] \<and>
   failed_names (trace (state_of (sendFiles vanish_env [file_a, file_b] (initial_sender busy_world))))
     = []"
  by (simp add: sendFiles_def sendFile_def sendChunks.simps waitBelow.simps backpressure_def
      peer_send_def suspend_def initial_sender_def busy_world_def vanish_env_def Let_def
      frames_sent_def failed_names_def List.map_filter_simps
      length_header_a length_file_end file_a_simps CHUNK_SIZE_def BUFFER_THRESHOLD_def)

section \<open>Sender and receiver together\<close>

lemma contents_file_marker: "contents file_marker = file_end"
  by code_simp

lemma length_header_marker: "length (file_header file_marker) = 64"
  by code_simp

lemma marker_run:
  "trace (state_of (sendFiles still_env [file_marker] (initial_sender clear_world))) =
     [SetTransferring True, Sent (Text (file_header file_marker)) 64, BufferedAmount 64,
      Sent (Binary file_end) 83, Sent (Text file_end) 102,
      SetTransferring False, Toast ''All files sent!'' ''success'', SetSelectedFiles_empty]"
  by (simp add: sendFiles_def sendFile_def sendChunks.simps backpressure_def
      peer_send_def suspend_def initial_sender_def clear_world_def still_env_def Let_def
      length_header_marker length_file_end contents_file_marker file_size_def
      CHUNK_SIZE_def BUFFER_THRESHOLD_def)

lemma marker_received:
  "receive blob_browser initial_receiver
     [Frame (file_header file_marker), Frame file_end, Frame file_end]
   = (\<lparr>currentFileMeta = None, writable = None, chunks = [], receivedBytes = 0, pending = []\<rparr>,
      [LogReceiving (Some (JStr ''m.json'')), LogFileReceived (Some (JStr ''m.json'')),
       BlobDownload (Some (JStr ''m.json'')) [], ToastReceived (Some (JStr ''m.json'')),
       Unhandled TypeError])"
  by code_simp

lemma overlap_received:
  "receive stream_browser initial_receiver
     [Frame (file_header file_a), Frame ''abc'', Settled 0, Frame file_end,
      Frame (file_header file_b), Settled 0, Frame ''{}'', Frame file_end]
   = (\<lparr>currentFileMeta = None, writable = None, chunks = [], receivedBytes = 0, pending = []\<rparr>,
      [LogReceiving (Some (JStr ''a.txt'')), LogFileReceived (Some (JStr ''a.txt'')),
       StreamClosed \<lparr>w_name = Some (JStr ''a.txt''), w_size = Some (JNum ''3''),
                     w_chunks = [''abc''], w_state = Writable\<rparr>,
       LogReceiving (Some (JStr ''b.txt'')), ToastReceived (Some (JStr ''b.txt'')),
       Unhandled TypeError])"
  by code_simp

text \<open>
  Claim C1, as stated, fails, in two ways.

  The receiver tells a control frame from data by the frame's length and by whether its text
  parses as JSON, so a chunk of file contents can be taken for a control frame. Here a file of
  19 bytes holds the text of an end marker: its one chunk closes the file on arrival, an empty
  file is saved under its name, and the real end marker that follows finds no file open.

  With a stream writer, the call that handles an end marker waits for the close and only then
  clears \<^verbatim>\<open>writable\<close> and \<^verbatim>\<open>currentFileMeta\<close>, while the sender hands the end marker of one file and
  the header of the next to the channel one after the other. Here \<^verbatim>\<open>a.txt\<close> and \<^verbatim>\<open>b.txt\<close> are sent,
  and the close of \<^verbatim>\<open>a.txt\<close> completes after the header of \<^verbatim>\<open>b.txt\<close> has been handled: the writer
  and the metadata of \<^verbatim>\<open>b.txt\<close> are cleared, its chunk is discarded, its end marker finds no file
  open, and only \<^verbatim>\<open>a.txt\<close> is saved.
\<close>

theorem roundtrip_counterexample:
  "contents file_marker = ''{\"type\":\"file-end\"}'' \<and>
   frames_sent (trace (state_of (sendFiles still_env [file_marker] (initial_sender clear_world))))
     = file_frames file_marker \<and>
   files_saved (snd (receive blob_browser initial_receiver
      (map Frame (delivered (trace (state_of (sendFiles still_env [file_marker] (initial_sender clear_world))))))))
     = [(Some (JStr ''m.json''), [])] \<and>
   frames_of [Frame (file_header file_a), Frame ''abc'', Settled 0, Frame file_end,
              Frame (file_header file_b), Settled 0, Frame ''{}'', Frame file_end]
     = delivered (trace (state_of (sendFiles still_env [file_a, file_b] (initial_sender clear_world)))) \<and>
   files_saved (snd (receive stream_browser initial_receiver
      [Frame (file_header file_a), Frame ''abc'', Settled 0, Frame file_end,
       Frame (file_header file_b), Settled 0, Frame ''{}'', Frame file_end]))
     = [(Some (JStr ''a.txt''), ''abc'')]"
proof -
  have c: "chunks_from 0 file_end = [file_end]"
    by (simp add: chunks_from.simps CHUNK_SIZE_def length_file_end)
  have d: "delivered (trace (state_of (sendFiles still_env [file_marker] (initial_sender clear_world))))
      = [file_header file_marker, file_end, file_end]"
    by (simp add: marker_run delivered_def frames_sent_def List.map_filter_simps)
  have d2: "delivered (trace (state_of (sendFiles still_env [file_a, file_b] (initial_sender clear_world))))
      = [file_header file_a, ''abc'', file_end, file_header file_b, ''{}'', file_end]"
    by (simp add: still_run delivered_def frames_sent_def List.map_filter_simps)
  have m: "frames_sent (trace (state_of (sendFiles still_env [file_marker] (initial_sender clear_world))))
     = file_frames file_marker"
    by (simp add: marker_run file_frames_def contents_file_marker c frames_sent_def
        List.map_filter_simps)
  have "files_saved (snd (receive blob_browser initial_receiver
      (map Frame [file_header file_marker, file_end, file_end]))) = [(Some (JStr ''m.json''), [])]"
    using marker_received by (simp add: files_saved_def List.map_filter_simps)
  moreover have "files_saved (snd (receive stream_browser initial_receiver
      [Frame (file_header file_a), Frame ''abc'', Settled 0, Frame file_end,
       Frame (file_header file_b), Settled 0, Frame ''{}'', Frame file_end]))
     = [(Some (JStr ''a.txt''), ''abc'')]"
    unfolding overlap_received by (simp add: files_saved_def List.map_filter_simps)
  moreover have "contents file_marker = ''{\"type\":\"file-end\"}''"
    by (simp add: file_marker_def)
  ultimately show ?thesis
    unfolding d d2 using m by (simp add: frames_of_def List.map_filter_simps)
qed

lemma onData_DataChunk: "classify data = DataChunk \<Longrightarrow> onData b st data = on_binary b st data"
  by (auto simp: classify_def onData_def split: option.splits if_splits)

text \<open>A frame of 1000 bytes or more, or one that does not start with a brace, is data.\<close>

lemma classify_plain:
  "length data \<ge> 1000 \<or> \<not> startsWith_brace data \<Longrightarrow> classify data = DataChunk"
  by (auto simp: classify_def control_message_def)

lemma control_message_header:
  assumes "length (file_header f) < 1000"
  shows "control_message (file_header f) = Some (header_object f)"
proof -
  have "startsWith_brace (file_header f)"
    by (simp add: file_header_def header_object_def JSON_stringify_header startsWith_brace_def)
  then show ?thesis
    using assms by (simp add: control_message_def JSON_parse_file_header)
qed

lemma onData_header:
  "length (file_header f) < 1000 \<Longrightarrow> onData b st (file_header f) = on_header b st (header_object f)"
  by (simp add: onData_def control_message_header) (simp add: header_object_def)

lemma onData_file_end: "onData b st file_end = on_end b st"
  by (simp add: onData_def control_message_file_end)

text \<open>
  Without a writer and with no call suspended, data frames received while a file is open are
  appended to the accumulated chunks.
\<close>

lemma receive_data:
  assumes "\<forall>c\<in>set cs. classify c = DataChunk" and "currentFileMeta st \<noteq> None"
    and "writable st = None"
  shows "receive b st (map Frame cs) =
           (st\<lparr>chunks := chunks st @ cs,
               receivedBytes := receivedBytes st + sum_list (map length cs)\<rparr>, [])"
  using assms
proof (induction cs arbitrary: st)
  case Nil
  then show ?case by simp
next
  case (Cons c cs)
  from Cons.prems have d: "onData b st c = on_binary b st c"
    by (simp add: onData_DataChunk)
  from Cons.prems obtain m where m: "currentFileMeta st = Some m" by auto
  let ?st1 = "st\<lparr>chunks := chunks st @ [c], receivedBytes := receivedBytes st + length c\<rparr>"
  from Cons.prems(3) m d have o: "onData b st c = (?st1, [])"
    by (simp add: on_binary_def)
  have "receive b ?st1 (map Frame cs) =
       (?st1\<lparr>chunks := chunks ?st1 @ cs,
             receivedBytes := receivedBytes ?st1 + sum_list (map length cs)\<rparr>, [])"
    using Cons.prems m by (intro Cons.IH) simp_all
  with o show ?case by (simp add: add.assoc)
qed

text \<open>
  The frames of one file, received by a browser that accumulates, with no file open and no
  writer in use, leave the receiver in such a state again and save one file: the name and
  the contents.
\<close>

lemma receive_file_frames:
  assumes idle: "currentFileMeta st = None" "writable st = None" "pending st = []"
    and hdr: "length (file_header f) < 1000"
    and dat: "\<forall>c\<in>set (chunks_from 0 (contents f)). classify c = DataChunk"
    and br: "accumulates b"
  shows "currentFileMeta (fst (receive b st (map Frame (map wire_bytes (file_frames f))))) = None
       \<and> writable (fst (receive b st (map Frame (map wire_bytes (file_frames f))))) = None
       \<and> pending (fst (receive b st (map Frame (map wire_bytes (file_frames f))))) = []
       \<and> files_saved (snd (receive b st (map Frame (map wire_bytes (file_frames f)))))
           = [(Some (JStr (name f)), contents f)]"
proof -
  let ?cs = "chunks_from 0 (contents f)"
  have frames: "map Frame (map wire_bytes (file_frames f))
      = Frame (file_header f) # (map Frame ?cs @ [Frame file_end])"
    by (simp add: file_frames_def comp_def)
  obtain st1 ev1 where h: "on_header b st (header_object f) = (st1, ev1)"
    by (cases "on_header b st (header_object f)")
  have nm: "get_prop (header_object f) ''name'' = Some (JStr (name f))"
    by (simp add: header_object_def)
  from h br idle have one: "currentFileMeta st1 = Some (header_object f)" "writable st1 = None"
    "chunks st1 = []" "pending st1 = []" "files_saved ev1 = []"
    by (auto simp: on_header_def Let_def files_saved_def accumulates_def List.map_filter_simps
        split: if_splits)
  from one(1) have open1: "currentFileMeta st1 \<noteq> None" by simp
  note d = receive_data [OF dat open1 one(2), of b]
  obtain st2 where r2: "receive b st1 (map Frame ?cs) = (st2, [])"
    using d by simp
  from d r2 one have two: "currentFileMeta st2 = Some (header_object f)" "writable st2 = None"
    "chunks st2 = ?cs" "pending st2 = []"
    by auto
  obtain st3 ev3 where e: "on_end b st2 = (st3, ev3)"
    by (cases "on_end b st2")
  from e two have three: "currentFileMeta st3 = None" "writable st3 = None" "pending st3 = []"
    "files_saved ev3 = [(Some (JStr (name f)), concat ?cs)]"
    by (auto simp: on_end_def Let_def nm files_saved_def List.map_filter_simps)
  have "receive b st (map Frame (map wire_bytes (file_frames f))) = (st3, ev1 @ ev3)"
    unfolding frames using h r2 e hdr
    by (simp add: onData_header receive_append onData_file_end)
  with three one(5) show ?thesis
    by (simp add: files_saved_def map_filter_append concat_chunks_from)
qed

lemma receive_all_files:
  assumes "currentFileMeta st = None" "writable st = None" "pending st = []"
    and "\<forall>f\<in>set fs. length (file_header f) < 1000"
    and "\<forall>f\<in>set fs. \<forall>c\<in>set (chunks_from 0 (contents f)). classify c = DataChunk"
    and "accumulates b"
  shows "files_saved (snd (receive b st (map Frame (map wire_bytes (concat (map file_frames fs))))))
           = map (\<lambda>f. (Some (JStr (name f)), contents f)) fs"
  using assms
proof (induction fs arbitrary: st)
  case Nil
  then show ?case by (simp add: files_saved_def List.map_filter_simps)
next
  case (Cons f fs)
  let ?r1 = "receive b st (map Frame (map wire_bytes (file_frames f)))"
  from Cons.prems have one: "currentFileMeta (fst ?r1) = None" "writable (fst ?r1) = None"
    "pending (fst ?r1) = []"
    "files_saved (snd ?r1) = [(Some (JStr (name f)), contents f)]"
    using receive_file_frames [of st f b] by auto
  have "files_saved (snd (receive b (fst ?r1) (map Frame (map wire_bytes (concat (map file_frames fs))))))
           = map (\<lambda>f. (Some (JStr (name f)), contents f)) fs"
    using one Cons.prems by (intro Cons.IH) simp_all
  with one(4) show ?case
    by (simp add: receive_append files_saved_def map_filter_append case_prod_beta)
qed

text \<open>
  A browser that accumulates never has a writer and never suspends a call, so nothing is ever
  waiting to settle: a run is decided by its frames.
\<close>

lemma onData_accumulates:
  assumes "accumulates b" and "writable st = None" and "pending st = []"
  shows "writable (fst (onData b st data)) = None \<and> pending (fst (onData b st data)) = []"
  using assms
  by (auto simp: onData_def on_header_def on_end_def on_binary_def accumulates_def Let_def
      split: option.splits)

lemma receive_accumulates:
  assumes "accumulates b" and "writable st = None" and "pending st = []"
  shows "receive b st sched = receive b st (map Frame (frames_of sched))"
  using assms(2,3)
proof (induction sched arbitrary: st)
  case Nil
  then show ?case by (simp add: frames_of_def List.map_filter_simps)
next
  case (Cons a sched)
  show ?case
  proof (cases a)
    case (Frame data)
    from onData_accumulates [OF assms(1) Cons.prems, of data]
    have "receive b (fst (onData b st data)) sched
        = receive b (fst (onData b st data)) (map Frame (frames_of sched))"
      by (intro Cons.IH) simp_all
    with Frame show ?thesis
      by (simp add: frames_of_def List.map_filter_simps case_prod_beta)
  next
    case (Settled k)
    with Cons show ?thesis
      by (simp add: frames_of_def List.map_filter_simps settle_def)
  qed
qed

text \<open>
  What is left of suspended calls saves nothing: once the frames are through, the files saved
  do not change.
\<close>

lemma settle_saves_nothing: "files_saved (snd (settle st k)) = []"
proof (cases "k < length (pending st)")
  case True
  then show ?thesis
    by (cases "pending st ! k")
       (auto simp: settle_def files_saved_def List.map_filter_simps split: option.splits)
next
  case False
  then show ?thesis by (simp add: settle_def files_saved_def List.map_filter_simps)
qed

lemma files_saved_append: "files_saved (xs @ ys) = files_saved xs @ files_saved ys"
  by (simp add: files_saved_def map_filter_append)

lemma receive_Cons_saved:
  "files_saved (snd (receive b st (a # rest)))
   = files_saved (snd (arrive b st a)) @ files_saved (snd (receive b (fst (arrive b st a)) rest))"
  by (simp add: case_prod_beta files_saved_append)

lemma receive_no_frames:
  "frames_of sched = [] \<Longrightarrow> files_saved (snd (receive b st sched)) = []"
proof (induction sched arbitrary: st)
  case Nil
  then show ?case by (simp add: files_saved_def List.map_filter_simps)
next
  case (Cons a sched)
  from Cons.prems obtain k where a: "a = Settled k" and r: "frames_of sched = []"
    by (cases a) (auto simp: frames_of_def List.map_filter_simps)
  from Cons.IH [OF r] show ?case
    unfolding receive_Cons_saved a by (simp add: settle_saves_nothing)
qed

lemma settle_streaming:
  assumes "streaming st w"
  shows "streaming (fst (settle st k)) w \<and> snd (settle st k) = []"
proof (cases "k < length (pending st)")
  case True
  with assms obtain n where n: "pending st ! k = AfterWrite False n"
    unfolding streaming_def using nth_mem by blast
  have "set (take k (pending st) @ drop (Suc k) (pending st)) \<subseteq> set (pending st)"
    by (auto dest: in_set_takeD in_set_dropD)
  with assms True n show ?thesis
    by (auto simp: settle_def streaming_def)
next
  case False
  with assms show ?thesis by (simp add: settle_def)
qed

lemma receive_streaming:
  assumes "streaming st w" and "frames_of sched = cs @ [file_end]"
    and "\<forall>c\<in>set cs. classify c = DataChunk"
    and "\<not> write_rejects b" and "\<not> close_rejects b"
  shows "files_saved (snd (receive b st sched)) = [(w_name w, concat (w_chunks w @ cs))]"
  using assms(1,2,3)
proof (induction sched arbitrary: st w cs)
  case Nil
  then show ?case by (simp add: frames_of_def List.map_filter_simps)
next
  case (Cons a sched)
  show ?case
  proof (cases a)
    case (Settled k)
    from Cons.prems(2) have f: "frames_of sched = cs @ [file_end]"
      by (simp add: Settled frames_of_def List.map_filter_simps)
    from settle_streaming [OF Cons.prems(1), of k]
    have s: "streaming (fst (settle st k)) w" and e: "snd (settle st k) = []" by simp_all
    from Cons.IH [OF s f Cons.prems(3)] show ?thesis
      unfolding receive_Cons_saved Settled by (simp add: e files_saved_def List.map_filter_simps)
  next
    case (Frame d)
    from Cons.prems(2) have f: "d # frames_of sched = cs @ [file_end]"
      by (simp add: Frame frames_of_def List.map_filter_simps)
    show ?thesis
    proof (cases cs)
      case Nil
      with f have d: "d = file_end" and r: "frames_of sched = []" by simp_all
      from Cons.prems(1) assms(5) obtain st1 where
        o: "onData b st file_end = (st1, snd (onData b st file_end))"
        and ev: "files_saved (snd (onData b st file_end)) = [(w_name w, concat (w_chunks w))]"
        by (auto simp: onData_file_end on_end_def streaming_def Let_def files_saved_def
            List.map_filter_simps)
      from receive_no_frames [OF r] ev show ?thesis
        unfolding receive_Cons_saved Frame d Nil by simp
    next
      case (Cons c cs')
      with f have d: "d = c" and r: "frames_of sched = cs' @ [file_end]" by simp_all
      from Cons.prems(3) Cons have dc: "classify c = DataChunk"
        and rest: "\<forall>c\<in>set cs'. classify c = DataChunk"
        by simp_all
      let ?w = "w\<lparr>w_chunks := w_chunks w @ [c]\<rparr>"
      from \<open>streaming st w\<close> assms(4) have
        s: "streaming (fst (onData b st c)) ?w" and e: "snd (onData b st c) = []"
        by (auto simp: onData_DataChunk [OF dc] on_binary_def streaming_def)
      from Cons.IH [OF s r rest] show ?thesis
        unfolding receive_Cons_saved Frame d Cons
        by (simp add: e files_saved_def List.map_filter_simps)
    qed
  qed
qed

lemma receive_one_file_streamed:
  assumes "currentFileMeta st = None" "writable st = None" "pending st = []"
    and "frames_of sched = map wire_bytes (file_frames f)"
    and "length (file_header f) < 1000"
    and "\<forall>c\<in>set (chunks_from 0 (contents f)). classify c = DataChunk"
    and "\<not> accumulates b" and "\<not> write_rejects b" and "\<not> close_rejects b"
  shows "files_saved (snd (receive b st sched)) = [(Some (JStr (name f)), contents f)]"
  using assms(1,2,3,4)
proof (induction sched arbitrary: st)
  case Nil
  then show ?case by (simp add: frames_of_def List.map_filter_simps file_frames_def)
next
  case (Cons a sched)
  let ?cs = "chunks_from 0 (contents f)"
  have frames: "map wire_bytes (file_frames f) = file_header f # (?cs @ [file_end])"
    by (simp add: file_frames_def comp_def)
  show ?case
  proof (cases a)
    case (Settled k)
    from Cons.prems(3) have s: "settle st k = (st, [])" by (simp add: settle_def)
    from Cons.prems(4) have f: "frames_of sched = map wire_bytes (file_frames f)"
      by (simp add: Settled frames_of_def List.map_filter_simps)
    from Cons.IH [OF Cons.prems(1,2,3) f] show ?thesis
      unfolding receive_Cons_saved Settled by (simp add: s files_saved_def List.map_filter_simps)
  next
    case (Frame d)
    from Cons.prems(4) have d: "d = file_header f" and r: "frames_of sched = ?cs @ [file_end]"
      unfolding frames by (simp_all add: Frame frames_of_def List.map_filter_simps)
    let ?w = "\<lparr>w_name = Some (JStr (name f)), w_size = get_prop (header_object f) ''size'',
               w_chunks = [], w_state = Writable\<rparr>"
    have nm: "get_prop (header_object f) ''name'' = Some (JStr (name f))"
      by (simp add: header_object_def)
    from assms(7) Cons.prems(3) have
      s: "streaming (fst (onData b st (file_header f))) ?w"
      and e: "files_saved (snd (onData b st (file_header f))) = []"
      by (auto simp: onData_header [OF assms(5)] on_header_def accumulates_def streaming_def
          Let_def nm files_saved_def List.map_filter_simps)
    from receive_streaming [OF s r assms(6,8,9)] show ?thesis
      unfolding receive_Cons_saved Frame d by (simp add: e concat_chunks_from)
  qed
qed

text \<open>
  Claim C1, amended. For every list of files whose headers are shorter than 1000 bytes and
  none of whose chunks the receiver takes for a header or an end marker (which holds of every
  chunk of 1000 bytes or more and of every chunk that does not start with a brace, see
  \<open>classify_plain\<close>): when \<^verbatim>\<open>sendFiles\<close> returns with no failure reported, the receiver, fed the
  frames sent, saves exactly one file per file sent, in the same order, under the same name
  and with the same bytes, provided it accumulates the chunks in memory (no stream writer)
  or, with a stream writer whose writes and close do not fail, a single file is sent; and
  this at whatever moments the promises of the suspended calls settle.
\<close>

theorem roundtrip_when_frames_are_told_apart:
  assumes "sendFiles e files (initial_sender w) = Ok st'" and "failed_names (trace st') = []"
    and "\<forall>f\<in>set files. length (file_header f) < 1000"
    and "\<forall>f\<in>set files. \<forall>c\<in>set (chunks_from 0 (contents f)). classify c = DataChunk"
    and "accumulates b \<or> (length files \<le> 1 \<and> \<not> write_rejects b \<and> \<not> close_rejects b)"
    and "frames_of sched = delivered (trace st')"
  shows "files_saved (snd (receive b initial_receiver sched))
           = map (\<lambda>f. (Some (JStr (name f)), contents f)) files"
proof -
  from sendFiles_frames [OF assms(1,2)]
  have d: "delivered (trace st') = map wire_bytes (concat (map file_frames files))"
    by (simp add: delivered_def initial_sender_def frames_sent_def List.map_filter_simps)
  have i: "currentFileMeta initial_receiver = None" "writable initial_receiver = None"
    "pending initial_receiver = []"
    by (simp_all add: initial_receiver_def)
  show ?thesis
  proof (cases "accumulates b")
    case True
    then have "receive b initial_receiver sched
        = receive b initial_receiver (map Frame (frames_of sched))"
      using i(2,3) by (rule receive_accumulates)
    then have r: "receive b initial_receiver sched
        = receive b initial_receiver (map Frame (map wire_bytes (concat (map file_frames files))))"
      unfolding assms(6) d .
    show ?thesis
      unfolding r using i assms(3,4) True by (rule receive_all_files)
  next
    case False
    with assms(5) have one: "length files \<le> 1" and br: "\<not> write_rejects b" "\<not> close_rejects b"
      by simp_all
    show ?thesis
    proof (cases files)
      case Nil
      with assms(6) d have "frames_of sched = []" by simp
      then show ?thesis unfolding Nil by (simp add: receive_no_frames)
    next
      case (Cons f fs)
      with one have fs: "files = [f]" by simp
      from assms(6) d have fr: "frames_of sched = map wire_bytes (file_frames f)"
        unfolding fs by simp
      from assms(3,4) have h: "length (file_header f) < 1000"
        "\<forall>c\<in>set (chunks_from 0 (contents f)). classify c = DataChunk"
        unfolding fs by simp_all
      from receive_one_file_streamed [OF i fr h False br] show ?thesis
        unfolding fs by simp
    qed
  qed
qed

lemma classify_samples: "classify ''abc'' = DataChunk" "classify ''{}'' = DataChunk"
  by code_simp+

lemma still_run_a:
  "trace (state_of (sendFiles still_env [file_a] (initial_sender clear_world))) =
     [SetTransferring True, Sent (Text (file_header file_a)) 61, BufferedAmount 61,
      Sent (Binary ''abc'') 64, Sent (Text file_end) 83,
      SetTransferring False, Toast ''All files sent!'' ''success'', SetSelectedFiles_empty]"
  by (simp add: sendFiles_def sendFile_def sendChunks.simps backpressure_def
      peer_send_def suspend_def initial_sender_def clear_world_def still_env_def Let_def
      length_header_a length_file_end file_a_simps CHUNK_SIZE_def BUFFER_THRESHOLD_def)

lemma still_run_a_Ok:
  "sendFiles still_env [file_a] (initial_sender clear_world)
   = Ok (state_of (sendFiles still_env [file_a] (initial_sender clear_world)))"
  by (simp add: sendFiles_def sendFile_def sendChunks.simps backpressure_def
      peer_send_def suspend_def initial_sender_def clear_world_def still_env_def Let_def
      length_header_a length_file_end file_a_simps CHUNK_SIZE_def BUFFER_THRESHOLD_def)

theorem roundtrip_when_frames_are_told_apart_witness:
  "sendFiles still_env [file_a, file_b] (initial_sender clear_world)
     = Ok (state_of (sendFiles still_env [file_a, file_b] (initial_sender clear_world))) \<and>
   failed_names (trace (state_of (sendFiles still_env [file_a, file_b] (initial_sender clear_world)))) = [] \<and>
   length (file_header file_a) < 1000 \<and> length (file_header file_b) < 1000 \<and>
   classify ''abc'' = DataChunk \<and> classify ''{}'' = DataChunk \<and>
   accumulates blob_browser \<and>
   frames_of (map Frame (delivered (trace (state_of
      (sendFiles still_env [file_a, file_b] (initial_sender clear_world))))))
     = [file_header file_a, ''abc'', file_end, file_header file_b, ''{}'', file_end] \<and>
   files_saved (snd (receive blob_browser initial_receiver
      (map Frame (delivered (trace (state_of
         (sendFiles still_env [file_a, file_b] (initial_sender clear_world))))))))
     = [(Some (JStr ''a.txt''), ''abc''), (Some (JStr ''b.txt''), ''{}'')] \<and>
   sendFiles still_env [file_a] (initial_sender clear_world)
     = Ok (state_of (sendFiles still_env [file_a] (initial_sender clear_world))) \<and>
   \<not> accumulates stream_browser \<and> \<not> write_rejects stream_browser \<and>
   \<not> close_rejects stream_browser \<and>
   frames_of [Frame (file_header file_a), Frame ''abc'', Frame file_end, Settled 0, Settled 0]
     = delivered (trace (state_of (sendFiles still_env [file_a] (initial_sender clear_world)))) \<and>
   files_saved (snd (receive stream_browser initial_receiver
      [Frame (file_header file_a), Frame ''abc'', Frame file_end, Settled 0, Settled 0]))
     = [(Some (JStr ''a.txt''), ''abc'')]"
proof -
  let ?st = "state_of (sendFiles still_env [file_a, file_b] (initial_sender clear_world))"
  let ?sa = "state_of (sendFiles still_env [file_a] (initial_sender clear_world))"
  let ?sched = "[Frame (file_header file_a), Frame ''abc'', Frame file_end, Settled 0, Settled 0]"
  have h2: "failed_names (trace ?st) = []"
    by (simp add: still_run failed_names_def List.map_filter_simps)
  have h3: "\<forall>f\<in>set [file_a, file_b]. length (file_header f) < 1000"
    by (simp add: length_header_a length_header_b)
  have c: "chunks_from 0 ''abc'' = [''abc'']" "chunks_from 0 ''{}'' = [''{}'']"
    by (simp_all add: chunks_from.simps CHUNK_SIZE_def)
  have h4: "\<forall>f\<in>set [file_a, file_b]. \<forall>c\<in>set (chunks_from 0 (contents f)). classify c = DataChunk"
    by (simp add: file_a_simps file_b_simps c classify_samples)
  have acc: "accumulates blob_browser"
    by (simp add: accumulates_def blob_browser_def)
  then have h5: "accumulates blob_browser \<or>
      (length [file_a, file_b] \<le> 1 \<and> \<not> write_rejects blob_browser \<and> \<not> close_rejects blob_browser)"
    ..
  have d: "delivered (trace ?st)
      = [file_header file_a, ''abc'', file_end, file_header file_b, ''{}'', file_end]"
    by (simp add: still_run delivered_def frames_sent_def List.map_filter_simps)
  have h6: "frames_of (map Frame (delivered (trace ?st))) = delivered (trace ?st)"
    unfolding d by (simp add: frames_of_def List.map_filter_simps)
  from roundtrip_when_frames_are_told_apart [OF still_run_Ok h2 h3 h4 h5 h6]
  have two: "files_saved (snd (receive blob_browser initial_receiver (map Frame (delivered (trace ?st)))))
     = [(Some (JStr ''a.txt''), ''abc''), (Some (JStr ''b.txt''), ''{}'')]"
    by (simp add: file_a_simps file_b_simps)
  have g2: "failed_names (trace ?sa) = []"
    by (simp add: still_run_a failed_names_def List.map_filter_simps)
  have g3: "\<forall>f\<in>set [file_a]. length (file_header f) < 1000"
    by (simp add: length_header_a)
  have g4: "\<forall>f\<in>set [file_a]. \<forall>c\<in>set (chunks_from 0 (contents f)). classify c = DataChunk"
    by (simp add: file_a_simps c classify_samples)
  have str: "\<not> accumulates stream_browser" "\<not> write_rejects stream_browser"
    "\<not> close_rejects stream_browser"
    by (simp_all add: accumulates_def stream_browser_def)
  then have g5: "accumulates stream_browser \<or>
      (length [file_a] \<le> 1 \<and> \<not> write_rejects stream_browser \<and> \<not> close_rejects stream_browser)"
    by simp
  have g6: "frames_of ?sched = delivered (trace ?sa)"
    by (simp add: still_run_a delivered_def frames_sent_def frames_of_def List.map_filter_simps)
  from roundtrip_when_frames_are_told_apart [OF still_run_a_Ok g2 g3 g4 g5 g6]
  have one: "files_saved (snd (receive stream_browser initial_receiver ?sched))
     = [(Some (JStr ''a.txt''), ''abc'')]"
    by (simp add: file_a_simps)
  from still_run_Ok h2 acc h6 classify_samples two still_run_a_Ok str g6 one show ?thesis
    unfolding d by (simp add: length_header_a length_header_b)
qed

end
